theory Spec2Isabelle
  imports Main "HOL-Library.Multiset"
begin

section \<open>Strings as the editor sees them\<close>

text \<open>
  The editor works on Python \<open>str\<close> values. A text is modelled as a \<open>string\<close>, one
  \<open>char\<close> per code point, for texts of ASCII characters. The functions below are the
  methods of \<open>str\<close> that \<open>editor.py\<close> calls.
\<close>

definition is_space :: "char \<Rightarrow> bool" where
  \<comment> \<open>\<open>str.isspace\<close> on ASCII: tab, LF, VT, FF, CR, FS, GS, RS, US and the space.\<close>
  "is_space c = (c \<in> set [CHR 0x09, CHR 0x0A, CHR 0x0B, CHR 0x0C, CHR 0x0D,
                            CHR 0x1C, CHR 0x1D, CHR 0x1E, CHR 0x1F, CHR 0x20])"

definition lstrip :: "string \<Rightarrow> string" where
  "lstrip s = dropWhile is_space s"

definition rstrip :: "string \<Rightarrow> string" where
  "rstrip s = rev (dropWhile is_space (rev s))"

definition strip :: "string \<Rightarrow> string" where
  "strip s = lstrip (rstrip s)"

definition startswith :: "string \<Rightarrow> string \<Rightarrow> bool" where
  "startswith s p = (take (length p) s = p)"

definition endswith :: "string \<Rightarrow> string \<Rightarrow> bool" where
  "endswith s p = (length p \<le> length s \<and> drop (length s - length p) s = p)"

definition line_indent :: "string \<Rightarrow> nat" where
  \<comment> \<open>Modelled from the spec: \<open>line_indent\<close> of the base editor, which is not in this
      file: the first non-whitespace column of the line, written as line 424 of
      \<open>editor.py\<close> writes the same quantity, \<open>len(text) - len(text.lstrip())\<close>.\<close>
  "line_indent text = length text - length (lstrip text)"

definition text_before_cursor :: "string \<Rightarrow> nat \<Rightarrow> string" where
  \<comment> \<open>Modelled from the spec: \<open>text_before_cursor\<close> of the base editor, which is not in
      this file: the text of the block that precedes the cursor.\<close>
  "text_before_cursor text column = take column text"

section \<open>Smart backspace and the Home key\<close>

datatype error = ZeroDivisionError

text \<open>
  The cursor of \<open>__smart_backspace\<close>, within its block: the block's text, the cursor's
  \<open>positionInBlock\<close> and whether a selection is active.
\<close>

record line_cursor =
  block_text :: string
  column :: nat
  has_selection :: bool

definition smart_backspace :: "string \<Rightarrow> line_cursor \<Rightarrow> error + (bool \<times> line_cursor)" where
  \<comment> \<open>\<open>indentation\<close> is \<open>self._indenter.text()\<close>. The result is \<open>accepted\<close> and the cursor
      with its block. \<open>%\<close> raises when the indent string is empty.\<close>
  "smart_backspace indentation c =
     (let before = text_before_cursor (block_text c) (column c);
          text = block_text c;
          space_at_start_len = length text - length (lstrip text);
          column_number = column c
      in if endswith before indentation \<and> space_at_start_len = column_number
            \<and> \<not> has_selection c
         then if length indentation = 0 then Inl ZeroDivisionError
              else let to_remove = length before mod length indentation;
                       to_remove = (if to_remove = 0 then length indentation else to_remove)
                   in Inr (True, c\<lparr>block_text := take (column_number - to_remove) text
                                                   @ drop column_number text,
                                    column := column_number - to_remove\<rparr>)
         else Inr (False, c))"

text \<open>
  The cursor of \<open>__manage_key_home\<close>: anchor and position are offsets in the document;
  the block the position lies in starts at \<open>block_position\<close>.
\<close>

record text_cursor =
  anchor :: nat
  position :: nat

definition position_in_block :: "nat \<Rightarrow> text_cursor \<Rightarrow> nat" where
  "position_in_block block_position c = position c - block_position"

definition set_position :: "bool \<Rightarrow> nat \<Rightarrow> text_cursor \<Rightarrow> text_cursor" where
  \<comment> \<open>\<open>keep_anchor\<close> is \<open>QTextCursor.KeepAnchor\<close>, otherwise \<open>MoveAnchor\<close>.\<close>
  "set_position keep_anchor p c =
     (if keep_anchor then c\<lparr>position := p\<rparr> else c\<lparr>anchor := p, position := p\<rparr>)"

definition manage_key_home :: "bool \<Rightarrow> nat \<Rightarrow> string \<Rightarrow> text_cursor \<Rightarrow> text_cursor" where
  \<comment> \<open>\<open>shift\<close> is \<open>event.modifiers() == Qt.ShiftModifier\<close>; the block has the text
      \<open>text\<close> and starts at \<open>block_position\<close>.\<close>
  "manage_key_home shift block_position text c =
     (let indent = line_indent text;
          move = shift
      in if position_in_block block_position c = indent
           then set_position move block_position c
         else if position_in_block block_position c = 0
           then set_position move (block_position + indent) c
         else if position_in_block block_position c > indent
           then set_position move (block_position + indent)
                  (set_position move block_position c)
         else c)"

section \<open>Comment or uncomment\<close>

text \<open>
  \<open>comment_or_uncomment\<close> works on the blocks from the one holding the start of the
  selection to the one holding its end; \<open>lines\<close> below are the texts of these blocks, in
  order, and \<open>marker\<close> is the comment marker of the language, the source's \<open>card\<close>:
  \<open>settings.SYNTAX[key].get("comment", [])[0]\<close>. The variables of the first loop:
\<close>

record scan_state =
  min_indent :: nat
  comment :: bool
  card_lenght :: int
  lines_commented :: nat
  lines_without_comment :: nat

definition maxsize :: nat where
  \<comment> \<open>\<open>sys.maxsize\<close>, the largest length a Python string or list can have.\<close>
  "maxsize = 2 ^ 63 - 1"

definition scan_block :: "string \<Rightarrow> scan_state \<Rightarrow> string \<Rightarrow> scan_state" where
  \<comment> \<open>One pass of the first \<open>while\<close> loop, on the block with the text \<open>text\<close>.\<close>
  "scan_block marker st text =
     (let indent = line_indent text;
          block_text = lstrip text
      in if block_text = [] then st
         else let st = st\<lparr>min_indent := min indent (min_indent st)\<rparr>
              in if startswith block_text marker
                   then st\<lparr>lines_commented := lines_commented st + 1, comment := False\<rparr>
                 else if startswith block_text (strip marker)
                   then st\<lparr>lines_commented := lines_commented st + 1, comment := False,
                           card_lenght := card_lenght st - 1\<rparr>
                 else st\<lparr>lines_without_comment := lines_without_comment st + 1,
                         comment := True\<rparr>)"

fun scan_blocks :: "string \<Rightarrow> string list \<Rightarrow> scan_state \<Rightarrow> scan_state" where
  "scan_blocks marker [] st = st"
| "scan_blocks marker (text # rest) st = scan_blocks marker rest (scan_block marker st text)"

definition get_operation :: "string \<Rightarrow> string list \<Rightarrow> scan_state" where
  \<comment> \<open>The first loop and the test on \<open>total_lines\<close> after it: the operation
      (\<open>comment\<close>), the minimum indent and the number of characters to remove.\<close>
  "get_operation marker lines =
     (let st = scan_blocks marker lines
                 \<lparr>min_indent = maxsize, comment = True, card_lenght = int (length marker),
                  lines_commented = 0, lines_without_comment = 0\<rparr>;
          total_lines = lines_commented st + lines_without_comment st
      in if lines_commented st > 0 \<and> lines_commented st \<noteq> total_lines
         then st\<lparr>comment := True\<rparr> else st)"

definition apply_block :: "string \<Rightarrow> scan_state \<Rightarrow> string \<Rightarrow> string option" where
  \<comment> \<open>One pass of the second \<open>while\<close> loop: the cursor goes to the start of the block,
      \<open>min_indent\<close> characters to the right, and there the marker is inserted, or
      \<open>card_lenght\<close> characters are selected and removed (none when \<open>card_lenght\<close> is
      not positive). The cursor moves by document positions; \<open>None\<close> stands for an
      edit that would not stay inside the block, which this model does not follow.\<close>
  "apply_block marker st text =
     (if lstrip text \<noteq> [] then
        if length text < min_indent st then None
        else if comment st
          then Some (take (min_indent st) text @ marker @ drop (min_indent st) text)
        else if length text < min_indent st + nat (card_lenght st) then None
        else Some (take (min_indent st) text
                   @ drop (min_indent st + nat (card_lenght st)) text)
      else Some text)"

fun apply_blocks :: "string \<Rightarrow> scan_state \<Rightarrow> string list \<Rightarrow> string list option" where
  "apply_blocks marker st [] = Some []"
| "apply_blocks marker st (text # rest) =
     (case apply_block marker st text of
        None \<Rightarrow> None
      | Some text' \<Rightarrow>
          (case apply_blocks marker st rest of
             None \<Rightarrow> None
           | Some rest' \<Rightarrow> Some (text' # rest')))"

definition comment_or_uncomment :: "string \<Rightarrow> string list \<Rightarrow> string list option" where
  \<comment> \<open>The texts of the blocks after the operation. The move of the cursor to the next
      line, when there was no selection, changes no text.\<close>
  "comment_or_uncomment marker lines = apply_blocks marker (get_operation marker lines) lines"

text \<open>
  The words of the specification: a line is blank when nothing is left of it after its
  leading whitespace, and commented when what is left starts with the marker, or with the
  marker stripped of its surrounding whitespace.
\<close>

definition is_blank :: "string \<Rightarrow> bool" where
  "is_blank text = (lstrip text = [])"

definition is_commented :: "string \<Rightarrow> string \<Rightarrow> bool" where
  "is_commented marker text =
     (startswith (lstrip text) marker \<or> startswith (lstrip text) (strip marker))"

definition is_variant :: "string \<Rightarrow> string \<Rightarrow> bool" where
  \<comment> \<open>The line carries the stripped marker and not the marker itself.\<close>
  "is_variant marker text =
     (\<not> startswith (lstrip text) marker \<and> startswith (lstrip text) (strip marker))"

definition nonblank :: "string list \<Rightarrow> string list" where
  "nonblank ls = filter (\<lambda>t. \<not> is_blank t) ls"

definition insert_marker :: "string \<Rightarrow> nat \<Rightarrow> string \<Rightarrow> string" where
  \<comment> \<open>The marker put at column \<open>m\<close> of a line that is not blank.\<close>
  "insert_marker marker m t = (if is_blank t then t else take m t @ marker @ drop m t)"

section \<open>The extra selections of an editor\<close>

record extra_selection =
  \<comment> \<open>Modelled from the spec: the class \<open>ExtraSelection\<close> of the module
      \<open>extra_selection\<close>, which is not in this file: a highlighted range of character
      offsets with an ordering priority, the \<open>order\<close> that \<open>update\<close> sorts by.\<close>
  order :: int
  start_pos :: nat
  end_pos :: nat

text \<open>
  The lists of selections are Python list objects: \<open>add\<close> stores the list it is given,
  not a copy, and \<open>remove\<close> empties the stored list in place. The heap maps the address
  of a list object to its elements; \<open>next_addr\<close> is the address of the next new list.
\<close>

type_synonym addr = nat

record heap =
  lists :: "addr \<Rightarrow> extra_selection list"
  next_addr :: addr

definition new_list :: "extra_selection list \<Rightarrow> heap \<Rightarrow> addr \<times> heap" where
  "new_list xs h = (next_addr h, h\<lparr>lists := (lists h)(next_addr h := xs),
                                    next_addr := Suc (next_addr h)\<rparr>)"

text \<open>
  An \<open>ExtraSelectionManager\<close>: the ordered dictionary \<open>__selections\<close>, from a kind to
  the address of its list, and the selections its editor last received through
  \<open>setExtraSelections\<close>.
\<close>

record manager =
  selections :: "(string \<times> addr) list"
  shown :: "extra_selection list"

fun dict_set :: "('k \<times> 'v) list \<Rightarrow> 'k \<Rightarrow> 'v \<Rightarrow> ('k \<times> 'v) list" where
  \<comment> \<open>\<open>d[k] = v\<close> on an ordered dictionary: a known key keeps its place.\<close>
  "dict_set [] k v = [(k, v)]"
| "dict_set ((k', v') # d) k v =
     (if k' = k then (k, v) # d else (k', v') # dict_set d k v)"

definition get :: "heap \<Rightarrow> manager \<Rightarrow> string \<Rightarrow> extra_selection list" where
  "get h m kind = (case map_of (selections m) kind of None \<Rightarrow> [] | Some a \<Rightarrow> lists h a)"

definition update :: "heap \<Rightarrow> manager \<Rightarrow> manager" where
  \<comment> \<open>\<open>sorted\<close> is stable, as \<open>sort_key\<close> is.\<close>
  "update h m =
     m\<lparr>shown := sort_key order (concat (map (\<lambda>(kind, a). lists h a) (selections m)))\<rparr>"

text \<open>The argument of \<open>add\<close>: one selection, or a list object.\<close>

datatype selection_arg = One extra_selection | ListObj addr

definition add :: "string \<Rightarrow> selection_arg \<Rightarrow> heap \<times> manager \<Rightarrow> heap \<times> manager" where
  "add kind selection hm =
     (let (h, m) = hm;
          (a, h) = (case selection of ListObj a \<Rightarrow> (a, h) | One s \<Rightarrow> new_list [s] h);
          m = m\<lparr>selections := dict_set (selections m) kind a\<rparr>
      in (h, update h m))"

definition remove :: "string \<Rightarrow> heap \<times> manager \<Rightarrow> heap \<times> manager" where
  "remove kind hm =
     (let (h, m) = hm
      in case map_of (selections m) kind of
           None \<Rightarrow> (h, m)
         | Some a \<Rightarrow> (let h = h\<lparr>lists := (lists h)(a := [])\<rparr> in (h, update h m)))"

fun link_items :: "(string \<times> addr) list \<Rightarrow> heap \<times> manager \<Rightarrow> heap \<times> manager" where
  \<comment> \<open>The loop of \<open>link\<close> over the items of the original, adding each to the clone.\<close>
  "link_items [] hc = hc"
| "link_items ((kind, a) # items) hc = link_items items (add kind (ListObj a) hc)"

definition link :: "manager \<Rightarrow> heap \<times> manager \<Rightarrow> heap \<times> manager" where
  \<comment> \<open>\<open>original.link(clone)\<close>, on the selections: the heap and the clone's manager
      after it. The cursor position and the scrollbar it also hands over hold no
      selections.\<close>
  "link original hc = link_items (selections original) hc"

text \<open>What \<open>add\<close> is given, as a list: a single selection is wrapped.\<close>

definition arg_list :: "heap \<Rightarrow> selection_arg \<Rightarrow> extra_selection list" where
  "arg_list h selection = (case selection of One s \<Rightarrow> [s] | ListObj a \<Rightarrow> lists h a)"

text \<open>
  A manager in a heap: the keys of its dictionary are distinct and its lists have been
  allocated. An argument in a heap: its list object, if it is one, has been allocated.
\<close>

definition manager_ok :: "heap \<Rightarrow> manager \<Rightarrow> bool" where
  "manager_ok h m = (distinct (map fst (selections m))
                     \<and> list_all (\<lambda>(kind, a). a < next_addr h) (selections m))"

definition arg_ok :: "heap \<Rightarrow> selection_arg \<Rightarrow> bool" where
  "arg_ok h selection = (case selection of One s \<Rightarrow> True | ListObj a \<Rightarrow> a < next_addr h)"

section \<open>Find\<close>

text \<open>
  \<open>_get_find_index_results\<close> lowers the text and the query when the search is not case
  sensitive, escapes the query with \<open>re.escape\<close> and searches with \<open>re\<close>. The functions
  of \<open>str\<close> and \<open>re\<close> it calls, on ASCII texts:
\<close>

definition lower_char :: "char \<Rightarrow> char" where
  "lower_char c =
     (case map_of (zip ''ABCDEFGHIJKLMNOPQRSTUVWXYZ'' ''abcdefghijklmnopqrstuvwxyz'') c of
        Some d \<Rightarrow> d
      | None \<Rightarrow> c)"

definition lower :: "string \<Rightarrow> string" where
  "lower s = map lower_char s"

definition backslash :: char where
  "backslash = CHR 0x5C"

definition is_alnum :: "char \<Rightarrow> bool" where
  "is_alnum c =
     (c \<in> set ''0123456789ABCDEFGHIJKLMNOPQRSTUVWXYZabcdefghijklmnopqrstuvwxyz'')"

definition is_word :: "char \<Rightarrow> bool" where
  \<comment> \<open>The characters that \<open>\w\<close> matches.\<close>
  "is_word c = (is_alnum c \<or> c = CHR ''_'')"

definition special_chars :: string where
  \<comment> \<open>The characters that \<open>re.escape\<close> escapes (Python 3.7 and later):
      \<open>()[]{}?*+-|^$\.&~#\<close>, the space, tab, LF, CR, VT and FF.\<close>
  "special_chars = ''()[]{}?*+-|^$.&~# '' @ [backslash, CHR 0x09, CHR 0x0A, CHR 0x0D, CHR 0x0B, CHR 0x0C]"

fun re_escape :: "string \<Rightarrow> string" where
  "re_escape [] = []"
| "re_escape (c # s) = (if c \<in> set special_chars then backslash # c # re_escape s
                        else c # re_escape s)"

text \<open>
  A compiled pattern is a list of atoms. \<open>re_compile\<close> follows \<open>re.compile\<close> on the
  patterns that are built from literal characters, escaped characters and \<open>\b\<close>; every
  other pattern is \<open>None\<close>: those that \<open>re\<close> rejects with an error, and those with
  operators, classes or groups, which this function never builds.
\<close>

datatype atom = Lit char | WordBoundary

definition is_meta :: "char \<Rightarrow> bool" where
  "is_meta c = (c \<in> set ''.^$*+?{}[]|()'')"

fun re_compile :: "string \<Rightarrow> atom list option" where
  "re_compile [] = Some []"
| "re_compile [c] = (if c = backslash \<or> is_meta c then None else Some [Lit c])"
| "re_compile (c # d # rest) =
     (if c = backslash then
        (if d = CHR ''b'' then map_option ((#) WordBoundary) (re_compile rest)
         else if is_alnum d then None
         else map_option ((#) (Lit d)) (re_compile rest))
      else if is_meta c then None
      else map_option ((#) (Lit c)) (re_compile (d # rest)))"

definition word_at :: "string \<Rightarrow> nat \<Rightarrow> bool" where
  "word_at s i = (i < length s \<and> is_word (s ! i))"

definition at_boundary :: "string \<Rightarrow> nat \<Rightarrow> bool" where
  \<comment> \<open>\<open>\b\<close> at offset \<open>i\<close>: a word character on one side and none on the other.\<close>
  "at_boundary s i = ((0 < i \<and> word_at s (i - 1)) \<noteq> word_at s i)"

fun match_at :: "atom list \<Rightarrow> string \<Rightarrow> nat \<Rightarrow> nat option" where
  \<comment> \<open>The end of the match of the pattern that starts at offset \<open>i\<close>, if there is one.\<close>
  "match_at [] s i = Some i"
| "match_at (Lit c # p) s i =
     (if i < length s \<and> s ! i = c then match_at p s (Suc i) else None)"
| "match_at (WordBoundary # p) s i =
     (if at_boundary s i then match_at p s i else None)"

function finditer_from :: "atom list \<Rightarrow> string \<Rightarrow> nat \<Rightarrow> (nat \<times> nat) list" where
  \<comment> \<open>The scan of \<open>finditer\<close> from offset \<open>i\<close>: the spans of the matches, from left to
      right, the search going on at the end of a match, one character further after an
      empty match.\<close>
  "finditer_from p s i =
     (if length s < i then []
      else case match_at p s i of
             None \<Rightarrow> finditer_from p s (Suc i)
           | Some e \<Rightarrow> (i, e) # finditer_from p s (max e (Suc i)))"
  by pat_completeness auto
termination
  by (relation "measure (\<lambda>(p, s, i). Suc (length s) - i)") auto

declare finditer_from.simps [simp del]

definition finditer :: "atom list \<Rightarrow> string \<Rightarrow> (nat \<times> nat) list" where
  "finditer p s = finditer_from p s 0"

definition find_all_iter :: "string \<Rightarrow> string \<Rightarrow> (nat \<times> nat) list" where
  "find_all_iter string sub =
     (case re_compile sub of
        None \<Rightarrow> []
      | Some reobj \<Rightarrow> finditer reobj string)"

definition get_find_index_results ::
    "string \<Rightarrow> nat \<Rightarrow> string \<Rightarrow> bool \<Rightarrow> bool \<Rightarrow> nat \<times> (nat \<times> nat) list" where
  \<comment> \<open>\<open>text\<close> is \<open>self.text\<close> and \<open>pos\<close> is \<open>self.textCursor().position()\<close>. The search
      of line 699 runs only when there are matches, so on a pattern that compiled.\<close>
  "get_find_index_results text pos expr cs wo =
     (let current_index = 0;
          text = (if \<not> cs then lower text else text);
          expr = (if \<not> cs then lower expr else expr);
          expr = re_escape expr;
          expr = (if wo then [backslash, CHR ''b''] @ re_escape expr @ [backslash, CHR ''b'']
                  else expr);
          matches = find_all_iter text expr;
          current_index = (if length matches > 0
                           then length (find_all_iter (take pos text) expr)
                           else current_index)
      in (current_index, matches))"

text \<open>
  The words of the specification: the query occurs at offset \<open>i\<close> of the text; it occurs
  there as a whole word, with no word character just before it and none just after it.
\<close>

definition occurs_at :: "string \<Rightarrow> string \<Rightarrow> nat \<Rightarrow> bool" where
  "occurs_at q s i = (i + length q \<le> length s \<and> take (length q) (drop i s) = q)"

definition whole_word_at :: "string \<Rightarrow> string \<Rightarrow> nat \<Rightarrow> bool" where
  "whole_word_at q s i =
     (occurs_at q s i \<and> \<not> (0 < i \<and> word_at s (i - 1)) \<and> \<not> word_at s (i + length q))"

definition spans_of :: "nat \<Rightarrow> (nat \<Rightarrow> bool) \<Rightarrow> (nat \<times> nat) list \<Rightarrow> bool" where
  \<comment> \<open>\<open>r\<close> lists, from left to right and without overlap, spans of length \<open>n\<close> that
      start where \<open>occ\<close> holds, and every offset where \<open>occ\<close> holds is the start of a
      listed span or lies inside one.\<close>
  "spans_of n occ r =
     ((\<forall>x \<in> set r. snd x = fst x + n \<and> occ (fst x))
      \<and> sorted_wrt (\<lambda>a b. snd a \<le> fst b \<and> fst a < fst b) r
      \<and> (\<forall>i. occ i \<longrightarrow> (\<exists>x \<in> set r. fst x \<le> i \<and> (i = fst x \<or> i < snd x))))"

definition highlight_selected_word ::
    "string \<Rightarrow> nat \<Rightarrow> string \<Rightarrow> int \<Rightarrow> heap \<times> manager \<Rightarrow> heap \<times> manager" where
  \<comment> \<open>\<open>word\<close> is \<open>self.word_under_cursor().selectedText()\<close>, and \<open>ord\<close> the order a new
      \<open>ExtraSelection\<close> gets. The result is the heap and the editor's manager.\<close>
  "highlight_selected_word text pos word ord hm =
     (let hm = remove ''occurrences'' hm
      in if get (fst hm) (snd hm) ''find'' \<noteq> [] then hm
         else if word = [] then hm
         else let results = snd (get_find_index_results text pos word False True);
                  selections = map (\<lambda>(start_pos, end_pos).
                                 \<lparr>order = ord, start_pos = start_pos, end_pos = end_pos\<rparr>)
                               (take 500 results);
                  (a, h) = new_list selections (fst hm)
              in add ''occurrences'' (ListObj a) (h, snd hm))"

section \<open>Properties\<close>

subsection \<open>Leading whitespace\<close>

lemma line_indent_le: "line_indent text \<le> length text"
  by (simp add: line_indent_def)

lemma length_lstrip_le: "length (lstrip s) \<le> length s"
  by (simp add: lstrip_def length_dropWhile_le)

lemma line_indent_takeWhile: "line_indent s = length (takeWhile is_space s)"
proof -
  have "length (takeWhile is_space s @ dropWhile is_space s) = length s" by simp
  then have "length (takeWhile is_space s) + length (dropWhile is_space s) = length s"
    by (simp only: length_append)
  then show ?thesis
    by (simp add: line_indent_def lstrip_def)
qed

lemma lstrip_drop_indent: "lstrip s = drop (line_indent s) s"
  unfolding line_indent_takeWhile lstrip_def by (rule dropWhile_eq_drop)

lemma take_indent_takeWhile: "take (line_indent s) s = takeWhile is_space s"
  unfolding line_indent_takeWhile by (rule takeWhile_eq_take[symmetric])

lemma take_indent_spaces: "\<forall>ch \<in> set (take (line_indent s) s). is_space ch"
  unfolding take_indent_takeWhile by (blast dest: set_takeWhileD)

text \<open>
  Claim C3. With the cursor at the first non-whitespace column of its line, no selection,
  and the text before the cursor ending with the (non-empty) indent string, smart backspace
  is accepted and removes, just before the cursor, as many characters as the length of the
  text before the cursor modulo the length of the indent string, or a whole indent string
  when that remainder is zero. The text before the cursor is whitespace only, the removal
  stays inside the line, and the line gets shorter by exactly that many characters.
\<close>

theorem smart_backspace_removes:
  assumes "indentation \<noteq> []"
    and "endswith (text_before_cursor (block_text c) (column c)) indentation"
    and "line_indent (block_text c) = column c"
    and "\<not> has_selection c"
  shows "let n = length (text_before_cursor (block_text c) (column c)) mod length indentation;
             r = (if n = 0 then length indentation else n);
             text' = take (column c - r) (block_text c) @ drop (column c) (block_text c)
         in smart_backspace indentation c = Inr (True, c\<lparr>block_text := text', column := column c - r\<rparr>)
            \<and> r \<le> column c
            \<and> length text' + r = length (block_text c)
            \<and> (\<forall>ch \<in> set (text_before_cursor (block_text c) (column c)). is_space ch)"
proof -
  let ?k = "length indentation"
  have col: "column c \<le> length (block_text c)"
    using assms(3) line_indent_le[of "block_text c"] by simp
  then have len: "length (text_before_cursor (block_text c) (column c)) = column c"
    by (simp add: text_before_cursor_def)
  have k: "0 < ?k" using assms(1) by simp
  have kle: "?k \<le> column c"
    using assms(2) len by (simp add: endswith_def)
  define r where "r = (if column c mod ?k = 0 then ?k else column c mod ?k)"
  have rle: "r \<le> column c"
    using kle k by (auto simp: r_def intro: order_trans[OF mod_less_eq_dividend])
  have sp: "\<forall>ch \<in> set (text_before_cursor (block_text c) (column c)). is_space ch"
    using take_indent_spaces[of "block_text c"] assms(3) by (simp add: text_before_cursor_def)
  have run: "smart_backspace indentation c =
      Inr (True, c\<lparr>block_text := take (column c - r) (block_text c) @ drop (column c) (block_text c),
                    column := column c - r\<rparr>)"
    using assms k len
    by (simp add: smart_backspace_def Let_def r_def line_indent_def)
  have "length (take (column c - r) (block_text c) @ drop (column c) (block_text c)) + r
          = length (block_text c)"
    using col rle by simp
  with run rle sp show ?thesis
    by (simp add: Let_def len r_def)
qed

text \<open>
  With an indent string of four spaces, six leading spaces become four and four become none.
\<close>

theorem smart_backspace_removes_witness:
  "smart_backspace ''    '' \<lparr>block_text = ''      x'', column = 6, has_selection = False\<rparr>
     = Inr (True, \<lparr>block_text = ''    x'', column = 4, has_selection = False\<rparr>)
   \<and> smart_backspace ''    '' \<lparr>block_text = ''    x'', column = 4, has_selection = False\<rparr>
     = Inr (True, \<lparr>block_text = ''x'', column = 0, has_selection = False\<rparr>)"
proof -
  have sp: "is_space CHR '' ''" "\<not> is_space CHR ''x''" by (simp_all add: is_space_def)
  have a: "smart_backspace ''    '' \<lparr>block_text = ''      x'', column = 6, has_selection = False\<rparr>
     = Inr (True, \<lparr>block_text = ''    x'', column = 4, has_selection = False\<rparr>)"
    using smart_backspace_removes
      [of "''    ''" "\<lparr>block_text = ''      x'', column = 6, has_selection = False\<rparr>"]
    by (simp add: text_before_cursor_def endswith_def line_indent_def lstrip_def sp Let_def)
  have b: "smart_backspace ''    '' \<lparr>block_text = ''    x'', column = 4, has_selection = False\<rparr>
     = Inr (True, \<lparr>block_text = ''x'', column = 0, has_selection = False\<rparr>)"
    using smart_backspace_removes
      [of "''    ''" "\<lparr>block_text = ''    x'', column = 4, has_selection = False\<rparr>"]
    by (simp add: text_before_cursor_def endswith_def line_indent_def lstrip_def sp Let_def)
  from a b show ?thesis by simp
qed

text \<open>
  Claim C9 as stated fails: on the line \<open>''    x''\<close>, whose first non-whitespace
  column is 4, Home pressed at column 2 leaves the cursor at column 2.
\<close>

theorem manage_key_home_inside_indent_counterexample:
  "line_indent ''    x'' = 4
   \<and> position_in_block 10 (manage_key_home False 10 ''    x'' \<lparr>anchor = 12, position = 12\<rparr>) = 2"
  by (simp add: manage_key_home_def line_indent_def lstrip_def is_space_def
      position_in_block_def set_position_def)

text \<open>
  Claim C9, amended. Home pressed at a column to the right of the first non-whitespace
  column moves the cursor to that column; pressed at that column it moves to column 0;
  pressed at column 0 it moves to the first non-whitespace column; pressed strictly
  inside the leading whitespace (after column 0) it leaves the cursor where it is. With
  Shift held the anchor stays.
\<close>

theorem manage_key_home_columns:
  assumes "block_position \<le> position c"
  shows "let indent = line_indent text;
             col = position_in_block block_position c;
             c' = manage_key_home shift block_position text c
         in (indent < col \<longrightarrow> position_in_block block_position c' = indent)
          \<and> (col = indent \<longrightarrow> position_in_block block_position c' = 0)
          \<and> (col = 0 \<longrightarrow> position_in_block block_position c' = indent)
          \<and> (0 < col \<and> col < indent \<longrightarrow> c' = c)
          \<and> (shift \<longrightarrow> anchor c' = anchor c)"
  using assms
  by (auto simp: manage_key_home_def position_in_block_def set_position_def Let_def)

theorem manage_key_home_columns_witness:
  "position_in_block 10 (manage_key_home False 10 ''    x'' \<lparr>anchor = 16, position = 16\<rparr>) = 4
   \<and> position_in_block 10 (manage_key_home False 10 ''    x'' \<lparr>anchor = 14, position = 14\<rparr>) = 0
   \<and> position_in_block 10 (manage_key_home False 10 ''    x'' \<lparr>anchor = 10, position = 10\<rparr>) = 4
   \<and> manage_key_home True 10 ''    x'' \<lparr>anchor = 12, position = 12\<rparr> = \<lparr>anchor = 12, position = 12\<rparr>"
proof -
  have i: "line_indent ''    x'' = 4"
    by (simp add: line_indent_def lstrip_def is_space_def)
  show ?thesis
    using manage_key_home_columns [of 10 "\<lparr>anchor = 16, position = 16\<rparr>" "''    x''" False]
      manage_key_home_columns [of 10 "\<lparr>anchor = 14, position = 14\<rparr>" "''    x''" False]
      manage_key_home_columns [of 10 "\<lparr>anchor = 10, position = 10\<rparr>" "''    x''" False]
      manage_key_home_columns [of 10 "\<lparr>anchor = 12, position = 12\<rparr>" "''    x''" True]
    by (simp add: i position_in_block_def Let_def)
qed

subsection \<open>The first loop of comment_or_uncomment\<close>

lemma scan_blocks_lines_commented:
  "lines_commented (scan_blocks marker ls st)
     = lines_commented st + length (filter (\<lambda>t. \<not> is_blank t \<and> is_commented marker t) ls)"
  by (induction ls arbitrary: st)
     (simp_all add: scan_block_def is_blank_def is_commented_def Let_def)

lemma scan_blocks_lines_without_comment:
  "lines_without_comment (scan_blocks marker ls st)
     = lines_without_comment st
       + length (filter (\<lambda>t. \<not> is_blank t \<and> \<not> is_commented marker t) ls)"
  by (induction ls arbitrary: st)
     (simp_all add: scan_block_def is_blank_def is_commented_def Let_def)

lemma scan_blocks_card_lenght:
  "card_lenght (scan_blocks marker ls st)
     = card_lenght st - int (length (filter (\<lambda>t. \<not> is_blank t \<and> is_variant marker t) ls))"
  by (induction ls arbitrary: st)
     (simp_all add: scan_block_def is_blank_def is_variant_def Let_def)

lemma scan_blocks_comment:
  "comment (scan_blocks marker ls st)
     = (if filter (\<lambda>t. \<not> is_blank t) ls = [] then comment st
        else \<not> is_commented marker (last (filter (\<lambda>t. \<not> is_blank t) ls)))"
  by (induction ls arbitrary: st)
     (simp_all add: scan_block_def is_blank_def is_commented_def Let_def)

lemma scan_block_min_indent_le:
  "min_indent (scan_block marker st u) \<le> min_indent st"
  by (simp add: scan_block_def Let_def)

lemma scan_blocks_min_indent_le:
  "min_indent (scan_blocks marker ls st) \<le> min_indent st"
proof (induction ls arbitrary: st)
  case Nil
  then show ?case by simp
next
  case (Cons u ls)
  have "min_indent (scan_blocks marker ls (scan_block marker st u))
          \<le> min_indent (scan_block marker st u)"
    by (rule Cons.IH)
  also have "\<dots> \<le> min_indent st"
    by (rule scan_block_min_indent_le)
  finally show ?case by simp
qed

lemma scan_blocks_min_indent_lower:
  "t \<in> set ls \<Longrightarrow> \<not> is_blank t \<Longrightarrow> min_indent (scan_blocks marker ls st) \<le> line_indent t"
proof (induction ls arbitrary: st)
  case Nil
  then show ?case by simp
next
  case (Cons u ls)
  show ?case
  proof (cases "t = u")
    case True
    have "min_indent (scan_blocks marker ls (scan_block marker st u))
            \<le> min_indent (scan_block marker st u)"
      by (rule scan_blocks_min_indent_le)
    also have "\<dots> \<le> line_indent t"
      using True Cons.prems(2) by (simp add: scan_block_def is_blank_def Let_def)
    finally show ?thesis by simp
  next
    case False
    then show ?thesis using Cons by simp
  qed
qed

lemma scan_blocks_min_indent_attained:
  "min_indent (scan_blocks marker ls st) = min_indent st
   \<or> (\<exists>t \<in> set ls. \<not> is_blank t \<and> min_indent (scan_blocks marker ls st) = line_indent t)"
proof (induction ls arbitrary: st)
  case Nil
  then show ?case by simp
next
  case (Cons u ls)
  have step: "min_indent (scan_block marker st u) = min_indent st
              \<or> (\<not> is_blank u \<and> min_indent (scan_block marker st u) = line_indent u)"
    by (auto simp: scan_block_def is_blank_def Let_def min_def)
  from Cons.IH[of "scan_block marker st u"] step show ?case
    by auto
qed

text \<open>The state after the first loop and the test that follows it.\<close>

lemma filter_conj_nonblank:
  "filter (\<lambda>t. \<not> is_blank t \<and> P t) ls = filter P (nonblank ls)"
  by (induction ls) (simp_all add: nonblank_def)

lemma get_operation_comment:
  "comment (get_operation marker ls)
     = (nonblank ls = [] \<or> (\<exists>t \<in> set (nonblank ls). \<not> is_commented marker t))"
proof -
  let ?nb = "nonblank ls"
  let ?c = "length (filter (is_commented marker) ?nb)"
  let ?w = "length (filter (\<lambda>t. \<not> is_commented marker t) ?nb)"
  let ?st = "scan_blocks marker ls
                 \<lparr>min_indent = maxsize, comment = True, card_lenght = int (length marker),
                  lines_commented = 0, lines_without_comment = 0\<rparr>"
  have c: "lines_commented ?st = ?c"
    by (simp add: scan_blocks_lines_commented filter_conj_nonblank)
  have w: "lines_without_comment ?st = ?w"
    by (simp add: scan_blocks_lines_without_comment filter_conj_nonblank)
  have fl: "comment ?st = (if ?nb = [] then True else \<not> is_commented marker (last ?nb))"
    by (simp add: scan_blocks_comment nonblank_def)
  have w0: "(?w = 0) = (\<forall>t \<in> set ?nb. is_commented marker t)"
    by (simp add: filter_empty_conv)
  have c0: "(?c = 0) = (\<forall>t \<in> set ?nb. \<not> is_commented marker t)"
    by (simp add: filter_empty_conv)
  have op: "comment (get_operation marker ls) = (if 0 < ?c \<and> ?w \<noteq> 0 then True else comment ?st)"
    unfolding get_operation_def Let_def c w by simp
  show ?thesis
  proof (cases "?nb = []")
    case True
    then show ?thesis using op fl by simp
  next
    case False
    then have lst: "last ?nb \<in> set ?nb" by simp
    show ?thesis
    proof (cases "\<forall>t \<in> set ?nb. is_commented marker t")
      case True
      then have "?w = 0" using w0 by simp
      moreover have "is_commented marker (last ?nb)" using True lst by blast
      ultimately show ?thesis using op fl False True by simp
    next
      case nall: False
      show ?thesis
      proof (cases "\<forall>t \<in> set ?nb. \<not> is_commented marker t")
        case True
        then have "\<not> is_commented marker (last ?nb)" using lst by blast
        then show ?thesis using op fl False nall by simp
      next
        case False
        then have "0 < ?c" using c0 by simp
        moreover have "?w \<noteq> 0" using nall w0 by simp
        ultimately show ?thesis using op nall by simp
      qed
    qed
  qed
qed

text \<open>
  Claim C2. Among the lines of the range that are not blank: when there is at least one
  and every one is commented, the operation is to uncomment; when none is commented, it is
  to comment; when some are commented and some are not, whichever are more, it is to
  comment.
\<close>

theorem comment_or_uncomment_operation:
  "let nb = filter (\<lambda>t. \<not> is_blank t) lines;
       op = comment (get_operation marker lines)
   in (nb \<noteq> [] \<and> (\<forall>t \<in> set nb. is_commented marker t) \<longrightarrow> \<not> op)
    \<and> ((\<forall>t \<in> set nb. \<not> is_commented marker t) \<longrightarrow> op)
    \<and> ((\<exists>t \<in> set nb. is_commented marker t) \<and> (\<exists>t \<in> set nb. \<not> is_commented marker t) \<longrightarrow> op)"
  unfolding Let_def get_operation_comment nonblank_def
  by (auto simp: filter_empty_conv)

subsection \<open>Commenting, then uncommenting\<close>

lemma lstrip_spaces_append:
  assumes "\<forall>ch \<in> set ws. is_space ch" and "rest \<noteq> []" and "\<not> is_space (hd rest)"
  shows "lstrip (ws @ rest) = rest"
proof -
  have "dropWhile is_space (ws @ rest) = dropWhile is_space rest"
    using assms(1) by (simp add: dropWhile_append)
  also have "\<dots> = rest"
    using assms(2,3) by (cases rest) simp_all
  finally show ?thesis by (simp add: lstrip_def)
qed

lemma take_le_indent_spaces:
  assumes "m \<le> line_indent t"
  shows "\<forall>ch \<in> set (take m t). is_space ch"
proof -
  have "take m t = take m (take (line_indent t) t)"
    using assms by (simp add: min_def)
  then have "set (take m t) \<subseteq> set (take (line_indent t) t)"
    by (metis set_take_subset)
  then show ?thesis using take_indent_spaces[of t] by blast
qed

lemma marker_facts:
  assumes "lstrip marker = marker" and "marker \<noteq> []"
  shows "\<not> is_space (hd marker)"
proof
  assume sp: "is_space (hd marker)"
  from assms(2) obtain a rest where mk: "marker = a # rest" by (cases marker) auto
  have "length (dropWhile is_space rest) \<le> length rest" by (rule length_dropWhile_le)
  moreover have "dropWhile is_space rest = a # rest"
    using assms(1) sp mk by (simp add: lstrip_def)
  ultimately show False by simp
qed

lemma inserted_line:
  assumes "lstrip marker = marker" and "marker \<noteq> []"
    and "\<not> is_blank t" and "m \<le> line_indent t"
  shows "lstrip (insert_marker marker m t) = marker @ drop m t"
    and "line_indent (insert_marker marker m t) = m"
    and "\<not> is_blank (insert_marker marker m t)"
    and "is_commented marker (insert_marker marker m t)"
    and "\<not> is_variant marker (insert_marker marker m t)"
proof -
  have sp: "\<forall>ch \<in> set (take m t). is_space ch"
    using assms(4) by (rule take_le_indent_spaces)
  have ns: "\<not> is_space (hd (marker @ drop m t))"
    using marker_facts[OF assms(1,2)] assms(2) by simp
  have ml: "m \<le> length t"
    using assms(4) line_indent_le[of t] by simp
  have l: "lstrip (take m t @ marker @ drop m t) = marker @ drop m t"
    using lstrip_spaces_append[OF sp _ ns] assms(2) by simp
  then show 1: "lstrip (insert_marker marker m t) = marker @ drop m t"
    using assms(3) by (simp add: insert_marker_def)
  show "line_indent (insert_marker marker m t) = m"
    using l assms(3) ml by (simp add: insert_marker_def line_indent_def)
  show "\<not> is_blank (insert_marker marker m t)"
    using 1 assms(2) by (simp add: is_blank_def)
  show "is_commented marker (insert_marker marker m t)"
    using 1 by (simp add: is_commented_def startswith_def)
  show "\<not> is_variant marker (insert_marker marker m t)"
    using 1 by (simp add: is_variant_def startswith_def)
qed

lemma apply_blocks_map:
  "(\<And>t. t \<in> set ls \<Longrightarrow> apply_block marker st t = Some (f t))
     \<Longrightarrow> apply_blocks marker st ls = Some (map f ls)"
  by (induction ls) simp_all

lemma get_operation_min_indent_le: "min_indent (get_operation marker ls) \<le> maxsize"
  using scan_blocks_min_indent_le[of marker ls
      "\<lparr>min_indent = maxsize, comment = True, card_lenght = int (length marker),
        lines_commented = 0, lines_without_comment = 0\<rparr>"]
  by (simp add: get_operation_def Let_def)

lemma get_operation_min_indent_lower:
  "t \<in> set ls \<Longrightarrow> \<not> is_blank t \<Longrightarrow> min_indent (get_operation marker ls) \<le> line_indent t"
  using scan_blocks_min_indent_lower[of t ls marker]
  by (simp add: get_operation_def Let_def)

lemma get_operation_min_indent_attained:
  "min_indent (get_operation marker ls) = maxsize
   \<or> (\<exists>t \<in> set ls. \<not> is_blank t \<and> min_indent (get_operation marker ls) = line_indent t)"
  using scan_blocks_min_indent_attained[of marker ls
      "\<lparr>min_indent = maxsize, comment = True, card_lenght = int (length marker),
        lines_commented = 0, lines_without_comment = 0\<rparr>"]
  by (simp add: get_operation_def Let_def)

lemma get_operation_card_lenght:
  "card_lenght (get_operation marker ls)
     = int (length marker) - int (length (filter (is_variant marker) (nonblank ls)))"
  by (simp add: get_operation_def Let_def scan_blocks_card_lenght filter_conj_nonblank)

lemma get_operation_min_indent_Min:
  assumes "\<forall>t \<in> set ls. length t \<le> maxsize" and "\<exists>t \<in> set ls. \<not> is_blank t"
  shows "min_indent (get_operation marker ls) = Min (line_indent ` {t \<in> set ls. \<not> is_blank t})"
proof -
  let ?A = "line_indent ` {t \<in> set ls. \<not> is_blank t}"
  let ?m = "min_indent (get_operation marker ls)"
  have fin: "finite ?A" by simp
  have low: "\<And>y. y \<in> ?A \<Longrightarrow> ?m \<le> y"
    using get_operation_min_indent_lower by auto
  have "?m \<in> ?A"
  proof (cases "\<exists>t \<in> set ls. \<not> is_blank t \<and> ?m = line_indent t")
    case True
    then obtain t where "t \<in> set ls" "\<not> is_blank t" "?m = line_indent t" by blast
    moreover from this have "line_indent t \<in> ?A" by blast
    ultimately show ?thesis by simp
  next
    case False
    then have mx: "?m = maxsize"
      using get_operation_min_indent_attained[of marker ls] by blast
    from assms(2) obtain t where t: "t \<in> set ls" "\<not> is_blank t" by blast
    have "?m \<le> line_indent t" using t by (rule get_operation_min_indent_lower)
    moreover have "line_indent t \<le> maxsize"
      using assms(1) t(1) line_indent_le[of t] by (meson order_trans)
    ultimately have "line_indent t = ?m" using mx by simp
    moreover have "line_indent t \<in> ?A" using t by blast
    ultimately show ?thesis by simp
  qed
  then show ?thesis using Min_eqI[OF fin low] by simp
qed

text \<open>
  Claim C4. On a range with a line that is not blank and no commented line, with a marker
  that does not start with whitespace, comment_or_uncomment inserts the marker at the
  smallest indent of the lines that are not blank, in each of them, and leaves the blank
  lines as they are; run again on the result, it gives back the lines it started from.
\<close>

theorem comment_then_uncomment:
  assumes "lstrip marker = marker"
    and "\<forall>t \<in> set lines. length t \<le> maxsize"
    and "\<exists>t \<in> set lines. \<not> is_blank t"
    and "\<forall>t \<in> set lines. \<not> is_blank t \<longrightarrow> \<not> is_commented marker t"
  shows "let m = Min (line_indent ` {t \<in> set lines. \<not> is_blank t});
             commented = map (\<lambda>t. if is_blank t then t else take m t @ marker @ drop m t) lines
         in comment_or_uncomment marker lines = Some commented
          \<and> comment_or_uncomment marker commented = Some lines"
proof -
  define m where "m = Min (line_indent ` {t \<in> set lines. \<not> is_blank t})"
  let ?st = "get_operation marker lines"
  let ?ls' = "map (insert_marker marker m) lines"
  let ?st' = "get_operation marker ?ls'"
  from assms(3) obtain u where u: "u \<in> set lines" "\<not> is_blank u" by blast
  have mne: "marker \<noteq> []"
    using assms(4) u by (auto simp: is_commented_def startswith_def)
  have m: "min_indent ?st = m"
    unfolding m_def using assms(2,3) by (rule get_operation_min_indent_Min)
  have mlow: "\<And>t. t \<in> set lines \<Longrightarrow> \<not> is_blank t \<Longrightarrow> m \<le> line_indent t"
    using get_operation_min_indent_lower[of _ lines marker] m by simp
  have mmax: "m \<le> maxsize"
    using get_operation_min_indent_le[of marker lines] m by simp
  have nb: "nonblank lines \<noteq> []"
    using u by (auto simp: nonblank_def filter_empty_conv)
  have unb: "u \<in> set (nonblank lines)"
    using u by (simp add: nonblank_def)
  have op: "comment ?st"
    unfolding get_operation_comment using assms(4) u unb by blast
  have first: "comment_or_uncomment marker lines = Some ?ls'"
    unfolding comment_or_uncomment_def
  proof (rule apply_blocks_map)
    fix t assume t: "t \<in> set lines"
    show "apply_block marker ?st t = Some (insert_marker marker m t)"
    proof (cases "is_blank t")
      case True
      then show ?thesis by (simp add: apply_block_def insert_marker_def is_blank_def)
    next
      case False
      then have "m \<le> length t"
        using mlow[OF t] line_indent_le[of t] by (meson order_trans)
      then show ?thesis
        using False op m by (simp add: apply_block_def insert_marker_def is_blank_def)
    qed
  qed
  have blank': "\<And>t. t \<in> set lines \<Longrightarrow> is_blank (insert_marker marker m t) = is_blank t"
    using inserted_line(3)[OF assms(1) mne _ mlow]
    by (auto simp: insert_marker_def)
  have nb': "set (nonblank ?ls') = insert_marker marker m ` {t \<in> set lines. \<not> is_blank t}"
    using blank' by (auto simp: nonblank_def)
  have u': "insert_marker marker m u \<in> set (nonblank ?ls')"
    using nb' u by blast
  have ne': "nonblank ?ls' \<noteq> []"
    using u' by auto
  have op': "\<not> comment ?st'"
    unfolding get_operation_comment using ne' nb' inserted_line(4)[OF assms(1) mne _ mlow]
    by auto
  have "filter (is_variant marker) (nonblank ?ls') = []"
    unfolding filter_empty_conv nb'
    using inserted_line(5)[OF assms(1) mne _ mlow] by auto
  then have cl': "card_lenght ?st' = int (length marker)"
    by (simp add: get_operation_card_lenght)
  have ind': "\<And>t'. t' \<in> set ?ls' \<Longrightarrow> \<not> is_blank t' \<Longrightarrow> line_indent t' = m"
    using inserted_line(2)[OF assms(1) mne _ mlow] blank' by auto
  have m': "min_indent ?st' = m"
  proof -
    have u'': "insert_marker marker m u \<in> set ?ls'" "\<not> is_blank (insert_marker marker m u)"
      using u blank' by auto
    have le: "min_indent ?st' \<le> m"
      using get_operation_min_indent_lower[OF u'', of marker] ind'[OF u''] by simp
    from get_operation_min_indent_attained[of marker ?ls'] show ?thesis
    proof
      assume "min_indent ?st' = maxsize"
      then show ?thesis using le mmax by simp
    next
      assume "\<exists>t \<in> set ?ls'. \<not> is_blank t \<and> min_indent ?st' = line_indent t"
      then show ?thesis using ind' by auto
    qed
  qed
  have "comment_or_uncomment marker ?ls' = Some (map (\<lambda>t'. if is_blank t' then t' else take m t' @ drop (m + length marker) t') ?ls')"
    unfolding comment_or_uncomment_def
  proof (rule apply_blocks_map)
    fix t' assume t': "t' \<in> set ?ls'"
    then obtain t where t: "t \<in> set lines" "t' = insert_marker marker m t" by auto
    show "apply_block marker ?st' t' = Some (if is_blank t' then t' else take m t' @ drop (m + length marker) t')"
    proof (cases "is_blank t'")
      case True
      then show ?thesis by (simp add: apply_block_def is_blank_def)
    next
      case False
      then have nbt: "\<not> is_blank t" using blank' t by simp
      have ml: "m \<le> length t"
        using mlow[OF t(1) nbt] line_indent_le[of t] by (meson order_trans)
      have len: "length t' = length t + length marker"
        using nbt t(2) by (simp add: insert_marker_def)
      show ?thesis
        using False op' m' cl' ml len by (simp add: apply_block_def is_blank_def)
    qed
  qed
  also have "map (\<lambda>t'. if is_blank t' then t' else take m t' @ drop (m + length marker) t') ?ls' = lines"
  proof -
    have "\<And>t. t \<in> set lines \<Longrightarrow>
        (if is_blank (insert_marker marker m t) then insert_marker marker m t
         else take m (insert_marker marker m t) @ drop (m + length marker) (insert_marker marker m t)) = t"
    proof -
      fix t assume t: "t \<in> set lines"
      show "(if is_blank (insert_marker marker m t) then insert_marker marker m t
         else take m (insert_marker marker m t) @ drop (m + length marker) (insert_marker marker m t)) = t"
      proof (cases "is_blank t")
        case True
        then show ?thesis by (simp add: insert_marker_def)
      next
        case False
        have ml: "m \<le> length t"
          using mlow[OF t False] line_indent_le[of t] by (meson order_trans)
        show ?thesis
          using False blank'[OF t] ml by (simp add: insert_marker_def min_def)
      qed
    qed
    then show ?thesis by (simp add: map_idI)
  qed
  finally have second: "comment_or_uncomment marker ?ls' = Some lines" .
  have "?ls' = map (\<lambda>t. if is_blank t then t else take m t @ marker @ drop m t) lines"
    by (simp add: insert_marker_def[abs_def])
  with first second show ?thesis
    unfolding Let_def m_def[symmetric] by simp
qed

theorem comment_or_uncomment_operation_witness:
  "\<not> comment (get_operation ''#'' [''#a'', '''', ''  # b''])
   \<and> comment (get_operation ''#'' [''a'', ''  b''])
   \<and> comment (get_operation ''#'' [''#a'', ''b'', ''#c''])"
proof -
  have sp: "\<not> is_space CHR ''#''" "\<not> is_space CHR ''a''" "\<not> is_space CHR ''b''"
    "\<not> is_space CHR ''c''" "is_space CHR '' ''"
    by (simp_all add: is_space_def)
  note ev = is_blank_def is_commented_def lstrip_def rstrip_def strip_def startswith_def sp Let_def
  have 1: "\<not> comment (get_operation ''#'' [''#a'', '''', ''  # b''])"
    using comment_or_uncomment_operation [of "[''#a'', '''', ''  # b'']" "''#''"]
    by (simp add: ev)
  have 2: "comment (get_operation ''#'' [''a'', ''  b''])"
    using comment_or_uncomment_operation [of "[''a'', ''  b'']" "''#''"]
    by (simp add: ev)
  have 3: "comment (get_operation ''#'' [''#a'', ''b'', ''#c''])"
    using comment_or_uncomment_operation [of "[''#a'', ''b'', ''#c'']" "''#''"]
    by (simp add: ev)
  from 1 2 3 show ?thesis by simp
qed

theorem comment_then_uncomment_witness:
  "comment_or_uncomment ''#'' [''    if x:'', ''        y = 1'', '''', ''    z = 2'']
     = Some [''    #if x:'', ''    #    y = 1'', '''', ''    #z = 2'']
   \<and> comment_or_uncomment ''#'' [''    #if x:'', ''    #    y = 1'', '''', ''    #z = 2'']
     = Some [''    if x:'', ''        y = 1'', '''', ''    z = 2'']"
proof -
  let ?ls = "[''    if x:'', ''        y = 1'', '''', ''    z = 2'']"
  have sp: "\<not> is_space CHR ''#''" "\<not> is_space CHR ''i''" "\<not> is_space CHR ''y''"
    "\<not> is_space CHR ''z''" "is_space CHR '' ''"
    by (simp_all add: is_space_def)
  note ev = is_blank_def is_commented_def lstrip_def rstrip_def strip_def startswith_def sp
  have nb: "{t \<in> set ?ls. \<not> is_blank t} = {''    if x:'', ''        y = 1'', ''    z = 2''}"
    by (auto simp: ev)
  have m: "Min (line_indent ` {t \<in> set ?ls. \<not> is_blank t}) = 4"
    unfolding nb by (simp add: line_indent_def lstrip_def sp)
  have h1: "lstrip ''#'' = ''#''" by (simp add: lstrip_def sp)
  have h2: "\<forall>t \<in> set ?ls. length t \<le> maxsize" by (simp add: maxsize_def)
  have h3: "\<exists>t \<in> set ?ls. \<not> is_blank t" by (simp add: ev)
  have h4: "\<forall>t \<in> set ?ls. \<not> is_blank t \<longrightarrow> \<not> is_commented ''#'' t" by (simp add: ev)
  show ?thesis
    using comment_then_uncomment [OF h1 h2 h3 h4]
    unfolding Let_def m by (simp add: ev)
qed

text \<open>
  Claim C6 on the code. With the marker \<open>''# ''\<close> and the lines \<open>''#a''\<close> and
  \<open>''#b''\<close>, both carrying the stripped marker, the number of characters to remove is
  lowered once for each of them, to 0, and uncommenting removes nothing, where the claim
  has one character removed from each line. With one such line among two, one character is
  removed from both lines, also from the one that carries the whole marker.
\<close>

theorem comment_or_uncomment_variant_lines:
  "comment_or_uncomment ''# '' [''#a'', ''#b''] = Some [''#a'', ''#b'']
   \<and> card_lenght (get_operation ''# '' [''#a'', ''#b'']) = 0
   \<and> comment_or_uncomment ''# '' [''# a'', ''#b''] = Some ['' a'', ''b'']"
  by (simp add: comment_or_uncomment_def get_operation_def scan_block_def apply_block_def
      line_indent_def lstrip_def rstrip_def strip_def startswith_def is_space_def maxsize_def Let_def)

subsection \<open>Adding selections\<close>

lemma map_of_dict_set:
  "map_of (dict_set d k v) k' = (if k' = k then Some v else map_of d k')"
  by (induction d k v rule: dict_set.induct) auto

lemma keys_dict_set: "fst ` set (dict_set d k v) = insert k (fst ` set d)"
  by (induction d k v rule: dict_set.induct) auto

lemma distinct_dict_set:
  "distinct (map fst d) \<Longrightarrow> distinct (map fst (dict_set d k v))"
  by (induction d k v rule: dict_set.induct) (auto simp: keys_dict_set)

lemma values_dict_set: "(k', a) \<in> set (dict_set d k v) \<Longrightarrow> a = v \<or> (k', a) \<in> set d"
  by (induction d k v rule: dict_set.induct) (auto split: if_splits)

lemma filter_other_keys:
  "k \<notin> set (map fst d) \<Longrightarrow> filter (\<lambda>(k', a). k' \<noteq> k) d = d"
  by (induction d) auto

lemma mset_concat_dict_set:
  "distinct (map fst d) \<Longrightarrow>
     mset (concat (map f (dict_set d k v)))
       = mset (f (k, v)) + mset (concat (map f (filter (\<lambda>(k', a). k' \<noteq> k) d)))"
proof (induction d k v rule: dict_set.induct)
  case (1 k v)
  then show ?case by simp
next
  case (2 k' v' d k v)
  show ?case
  proof (cases "k' = k")
    case True
    then have "k \<notin> set (map fst d)" using "2.prems" by simp
    then have "filter (\<lambda>(k', a). k' \<noteq> k) d = d" by (rule filter_other_keys)
    then show ?thesis using True by simp
  next
    case False
    then show ?thesis using 2 by simp
  qed
qed

lemma add_unfold:
  "add kind selection (h, m) =
     (let (a, h') = (case selection of ListObj a \<Rightarrow> (a, h) | One s \<Rightarrow> new_list [s] h)
      in (h', update h' (m\<lparr>selections := dict_set (selections m) kind a\<rparr>)))"
  by (simp add: add_def Let_def split: prod.splits)

lemma add_get_same:
  "get (fst (add kind selection (h, m))) (snd (add kind selection (h, m))) kind
     = arg_list h selection"
  by (cases selection)
     (simp_all add: add_unfold new_list_def get_def update_def map_of_dict_set arg_list_def)

lemma add_lists_old:
  "a < next_addr h \<Longrightarrow> lists (fst (add kind selection (h, m))) a = lists h a"
  by (cases selection) (simp_all add: add_unfold new_list_def)

lemma add_next_addr: "next_addr h \<le> next_addr (fst (add kind selection (h, m)))"
  by (cases selection) (simp_all add: add_unfold new_list_def)

lemma manager_ok_addr:
  "manager_ok h m \<Longrightarrow> map_of (selections m) k = Some a \<Longrightarrow> a < next_addr h"
  by (auto simp: manager_ok_def list_all_iff dest: map_of_SomeD)

lemma manager_ok_item:
  "manager_ok h m \<Longrightarrow> (k, a) \<in> set (selections m) \<Longrightarrow> a < next_addr h"
  by (auto simp: manager_ok_def list_all_iff)

lemma add_get_other:
  assumes "manager_ok h m" and "k' \<noteq> kind"
  shows "get (fst (add kind selection (h, m))) (snd (add kind selection (h, m))) k' = get h m k'"
proof (cases "map_of (selections m) k'")
  case None
  then show ?thesis
    using assms(2)
    by (cases selection) (simp_all add: add_unfold new_list_def get_def update_def map_of_dict_set)
next
  case (Some a)
  then have "a < next_addr h" using assms(1) by (rule manager_ok_addr[rotated])
  then show ?thesis
    using assms(2) Some
    by (cases selection) (auto simp: add_unfold new_list_def get_def update_def map_of_dict_set)
qed

lemma add_selections:
  "selections (snd (add kind selection (h, m)))
     = dict_set (selections m) kind
         (case selection of ListObj a \<Rightarrow> a | One s \<Rightarrow> next_addr h)"
  by (cases selection) (simp_all add: add_unfold new_list_def update_def)

lemma add_manager_ok:
  assumes "manager_ok h m" and "arg_ok h selection"
  shows "manager_ok (fst (add kind selection (h, m))) (snd (add kind selection (h, m)))"
proof -
  let ?h' = "fst (add kind selection (h, m))"
  let ?a = "case selection of ListObj a \<Rightarrow> a | One s \<Rightarrow> next_addr h"
  have d: "distinct (map fst (dict_set (selections m) kind ?a))"
    using assms(1) by (simp add: manager_ok_def distinct_dict_set)
  have a: "?a < next_addr ?h'"
    using assms(2) add_next_addr[of h kind selection m]
    by (cases selection) (simp_all add: arg_ok_def add_unfold new_list_def)
  have "\<And>k' b. (k', b) \<in> set (dict_set (selections m) kind ?a) \<Longrightarrow> b < next_addr ?h'"
  proof -
    fix k' b assume "(k', b) \<in> set (dict_set (selections m) kind ?a)"
    then have "b = ?a \<or> (k', b) \<in> set (selections m)" by (rule values_dict_set)
    then show "b < next_addr ?h'"
      using a manager_ok_item[OF assms(1)] add_next_addr[of h kind selection m]
      by (meson less_le_trans)
  qed
  then show ?thesis
    using d by (auto simp: manager_ok_def add_selections list_all_iff)
qed

lemma add_snd:
  "snd (add kind selection (h, m))
     = update (fst (add kind selection (h, m)))
         (m\<lparr>selections := dict_set (selections m) kind
             (case selection of ListObj a \<Rightarrow> a | One s \<Rightarrow> next_addr h)\<rparr>)"
  by (cases selection) (simp_all add: add_unfold new_list_def)

lemma add_shown:
  "shown (snd (add kind selection (h, m)))
     = sort_key order (concat (map (\<lambda>(k, a). lists (fst (add kind selection (h, m))) a)
         (dict_set (selections m) kind
             (case selection of ListObj a \<Rightarrow> a | One s \<Rightarrow> next_addr h))))"
  by (subst add_snd) (simp add: update_def)

lemma add_shown_mset:
  assumes "manager_ok h m"
  shows "mset (shown (snd (add kind selection (h, m))))
           = mset (arg_list h selection)
             + mset (concat (map (\<lambda>(k, a). lists h a)
                 (filter (\<lambda>(k, a). k \<noteq> kind) (selections m))))"
proof -
  let ?h' = "fst (add kind selection (h, m))"
  let ?a = "case selection of ListObj a \<Rightarrow> a | One s \<Rightarrow> next_addr h"
  let ?others = "filter (\<lambda>(k, a). k \<noteq> kind) (selections m)"
  have d: "distinct (map fst (selections m))" using assms by (simp add: manager_ok_def)
  have new: "lists ?h' ?a = arg_list h selection"
    by (cases selection) (simp_all add: add_unfold new_list_def arg_list_def)
  have "map (\<lambda>(k, a). lists ?h' a) ?others = map (\<lambda>(k, a). lists h a) ?others"
    using manager_ok_item[OF assms] add_lists_old[of _ h kind selection m]
    by (auto intro!: map_cong)
  then have old: "concat (map (\<lambda>(k, a). lists ?h' a) ?others)
                    = concat (map (\<lambda>(k, a). lists h a) ?others)"
    by (rule arg_cong)
  have "mset (shown (snd (add kind selection (h, m))))
          = mset (concat (map (\<lambda>(k, a). lists ?h' a) (dict_set (selections m) kind ?a)))"
    by (simp add: add_shown)
  also have "\<dots> = mset (lists ?h' ?a) + mset (concat (map (\<lambda>(k, a). lists ?h' a) ?others))"
    using mset_concat_dict_set[OF d, of "\<lambda>(k, a). lists ?h' a" kind ?a] by simp
  finally show ?thesis
    by (simp only: new old)
qed

text \<open>
  Claim C8. After \<open>add k1 S1\<close> and then \<open>add k1 S2\<close> on a manager, the selections
  stored for \<open>k1\<close> are those of \<open>S2\<close> (a single selection wrapped in a list), the
  selections stored for any other kind \<open>k2\<close> are what they were before the second
  \<open>add\<close>, and the editor has received, sorted by order, the selections of \<open>S2\<close>
  together with those of the other kinds and nothing else.
\<close>

theorem add_replaces_category:
  assumes "manager_ok h m" and "arg_ok h S1" and "k1 \<noteq> k2"
  shows "let (h1, m1) = add k1 S1 (h, m);
             (h2, m2) = add k1 S2 (h1, m1)
         in get h1 m1 k1 = arg_list h S1
          \<and> get h2 m2 k1 = arg_list h1 S2
          \<and> get h2 m2 k2 = get h1 m1 k2
          \<and> sorted (map order (shown m2))
          \<and> mset (shown m2)
              = mset (arg_list h1 S2)
                + mset (concat (map (\<lambda>(k, a). lists h1 a)
                    (filter (\<lambda>(k, a). k \<noteq> k1) (selections m1))))"
proof -
  obtain h1 m1 where 1: "add k1 S1 (h, m) = (h1, m1)" by (cases "add k1 S1 (h, m)")
  obtain h2 m2 where 2: "add k1 S2 (h1, m1) = (h2, m2)" by (cases "add k1 S2 (h1, m1)")
  have ok1: "manager_ok h1 m1"
    using add_manager_ok[OF assms(1,2), of k1] 1 by simp
  have a: "get h1 m1 k1 = arg_list h S1"
    using add_get_same[of k1 S1 h m] 1 by simp
  have b: "get h2 m2 k1 = arg_list h1 S2"
    using add_get_same[of k1 S2 h1 m1] 2 by simp
  have c: "get h2 m2 k2 = get h1 m1 k2"
    using add_get_other[OF ok1, of k2 k1 S2] assms(3) 2 by simp
  have d: "sorted (map order (shown m2))"
    using add_shown[of k1 S2 h1 m1] 2 by simp
  have e: "mset (shown m2) = mset (arg_list h1 S2)
                + mset (concat (map (\<lambda>(k, a). lists h1 a)
                    (filter (\<lambda>(k, a). k \<noteq> k1) (selections m1))))"
    using add_shown_mset[OF ok1, of k1 S2] 2 by simp
  from a b c d e show ?thesis by (simp add: 1 2)
qed

subsection \<open>Linking a clone\<close>

lemma add_list_heap: "fst (add kind (ListObj a) (h, m)) = h"
  by (simp add: add_unfold)

lemma add_list_selections:
  "selections (snd (add kind (ListObj a) (h, m))) = dict_set (selections m) kind a"
  by (simp add: add_unfold update_def)

lemma link_items_heap: "fst (link_items items (h, c)) = h"
proof (induction items arbitrary: c)
  case Nil
  then show ?case by simp
next
  case (Cons item items)
  obtain kind a where item: "item = (kind, a)" by (cases item)
  obtain c' where c': "add kind (ListObj a) (h, c) = (h, c')"
    using add_list_heap[of kind a h c] by (cases "add kind (ListObj a) (h, c)") simp
  show ?case using Cons.IH[of c'] by (simp add: item c')
qed

lemma link_items_map_of:
  "distinct (map fst items) \<Longrightarrow>
     map_of (selections (snd (link_items items (h, c)))) k
       = (if k \<in> fst ` set items then map_of items k else map_of (selections c) k)"
proof (induction items arbitrary: c)
  case Nil
  then show ?case by simp
next
  case (Cons item items)
  obtain kind a where item: "item = (kind, a)" by (cases item)
  obtain c' where c': "add kind (ListObj a) (h, c) = (h, c')"
    using add_list_heap[of kind a h c] by (cases "add kind (ListObj a) (h, c)") simp
  have sel: "selections c' = dict_set (selections c) kind a"
    using add_list_selections[of kind a h c] by (simp add: c')
  have d: "distinct (map fst items)" and nk: "kind \<notin> fst ` set items"
    using Cons.prems by (simp_all add: item)
  show ?case
    using Cons.IH[OF d, of c'] nk
    by (auto simp: item c' sel map_of_dict_set)
qed

lemma link_get_copied:
  assumes "distinct (map fst (selections original))"
    and "kind \<in> fst ` set (selections original)"
  shows "get (fst (link original (h, clone))) (snd (link original (h, clone))) kind
           = get h original kind"
  using assms
  by (simp add: link_def get_def link_items_heap link_items_map_of)

lemma link_items_manager_ok:
  "manager_ok h c \<Longrightarrow> list_all (\<lambda>(kind, a). a < next_addr h) items
     \<Longrightarrow> manager_ok h (snd (link_items items (h, c)))"
proof (induction items arbitrary: c)
  case Nil
  then show ?case by simp
next
  case (Cons item items)
  obtain kind a where item: "item = (kind, a)" by (cases item)
  obtain c' where c': "add kind (ListObj a) (h, c) = (h, c')"
    using add_list_heap[of kind a h c] by (cases "add kind (ListObj a) (h, c)") simp
  have "arg_ok h (ListObj a)" using Cons.prems(2) by (simp add: item arg_ok_def)
  then have "manager_ok h c'"
    using add_manager_ok[OF Cons.prems(1), of "ListObj a" kind] by (simp add: c')
  then show ?case
    using Cons.IH[of c'] Cons.prems(2) by (simp add: item c')
qed

lemma add_keeps_other_manager:
  assumes "manager_ok h c"
  shows "get (fst (add kind selection (h, m))) c k = get h c k"
proof (cases "map_of (selections c) k")
  case None
  then show ?thesis by (simp add: get_def)
next
  case (Some a)
  then have "a < next_addr h" using assms by (rule manager_ok_addr[rotated])
  then show ?thesis using Some by (simp add: get_def add_lists_old)
qed

lemma remove_clears:
  "map_of (selections m) kind = Some a \<Longrightarrow> lists (fst (remove kind (h, m))) a = []"
  by (simp add: remove_def Let_def)

text \<open>
  Claim C10, amended. \<open>link\<close> stores in the clone, for every kind of the original,
  the list object of the original itself: right after it the clone's selections of the kind
  are the original's. An \<open>add\<close> on the original afterwards, which replaces the
  original's list by another, leaves the selections stored in the clone as they are; a
  \<open>remove\<close> on the original, which empties the shared list in place, leaves the clone
  with no selections of that kind.
\<close>

theorem link_shares_lists:
  assumes "manager_ok h original" and "manager_ok h clone"
    and "kind \<in> fst ` set (selections original)"
  shows "let (h1, clone1) = link original (h, clone)
         in get h1 clone1 kind = get h original kind
          \<and> get (fst (add kind S (h1, original))) clone1 k = get h1 clone1 k
          \<and> get (fst (remove kind (h1, original))) clone1 kind = []"
proof -
  obtain h1 clone1 where l: "link original (h, clone) = (h1, clone1)"
    by (cases "link original (h, clone)")
  have h1: "h1 = h"
    using link_items_heap[of "selections original" h clone] l by (simp add: link_def)
  have d: "distinct (map fst (selections original))"
    using assms(1) by (simp add: manager_ok_def)
  have a: "get h1 clone1 kind = get h original kind"
    using link_get_copied[OF d assms(3), of h clone] l by simp
  have ok: "manager_ok h clone1"
    using link_items_manager_ok[OF assms(2), of "selections original"] assms(1) l
    by (simp add: link_def manager_ok_def)
  have b: "get (fst (add kind S (h1, original))) clone1 k = get h1 clone1 k"
    unfolding h1 using ok by (rule add_keeps_other_manager)
  from assms(3) d obtain ad where ad: "map_of (selections original) kind = Some ad"
    by (metis image_iff map_of_eq_None_iff not_Some_eq)
  have "map_of (selections clone1) kind = Some ad"
    using link_items_map_of[OF d, of h clone kind] assms(3) l ad by (simp add: link_def)
  then have c: "get (fst (remove kind (h1, original))) clone1 kind = []"
    using remove_clears[OF ad, of h1] by (simp add: get_def)
  from a b c show ?thesis by (simp add: l)
qed

text \<open>
  Claim C10 as stated fails: the original holds one selection of the kind \<open>''find''\<close>;
  after \<open>link\<close> the clone holds it too, and after \<open>remove ''find''\<close> on the
  original the clone's stored list of that kind is empty.
\<close>

theorem remove_after_link_counterexample:
  "get (fst (link \<lparr>selections = [(''find'', 0)], shown = [\<lparr>order = 0, start_pos = 0, end_pos = 3\<rparr>]\<rparr>
               (\<lparr>lists = (\<lambda>a. [])(0 := [\<lparr>order = 0, start_pos = 0, end_pos = 3\<rparr>]), next_addr = 1\<rparr>,
                \<lparr>selections = [], shown = []\<rparr>)))
       (snd (link \<lparr>selections = [(''find'', 0)], shown = [\<lparr>order = 0, start_pos = 0, end_pos = 3\<rparr>]\<rparr>
               (\<lparr>lists = (\<lambda>a. [])(0 := [\<lparr>order = 0, start_pos = 0, end_pos = 3\<rparr>]), next_addr = 1\<rparr>,
                \<lparr>selections = [], shown = []\<rparr>)))
       ''find''
     = [\<lparr>order = 0, start_pos = 0, end_pos = 3\<rparr>]
   \<and> get (fst (remove ''find''
               (fst (link \<lparr>selections = [(''find'', 0)], shown = [\<lparr>order = 0, start_pos = 0, end_pos = 3\<rparr>]\<rparr>
                  (\<lparr>lists = (\<lambda>a. [])(0 := [\<lparr>order = 0, start_pos = 0, end_pos = 3\<rparr>]), next_addr = 1\<rparr>,
                   \<lparr>selections = [], shown = []\<rparr>)),
                \<lparr>selections = [(''find'', 0)], shown = [\<lparr>order = 0, start_pos = 0, end_pos = 3\<rparr>]\<rparr>)))
       (snd (link \<lparr>selections = [(''find'', 0)], shown = [\<lparr>order = 0, start_pos = 0, end_pos = 3\<rparr>]\<rparr>
               (\<lparr>lists = (\<lambda>a. [])(0 := [\<lparr>order = 0, start_pos = 0, end_pos = 3\<rparr>]), next_addr = 1\<rparr>,
                \<lparr>selections = [], shown = []\<rparr>)))
       ''find''
     = []"
  by (simp add: link_def add_def remove_def update_def get_def Let_def)

theorem link_shares_lists_witness:
  "manager_ok \<lparr>lists = (\<lambda>a. [])(0 := [\<lparr>order = 0, start_pos = 0, end_pos = 3\<rparr>]), next_addr = 1\<rparr>
      \<lparr>selections = [(''find'', 0)], shown = [\<lparr>order = 0, start_pos = 0, end_pos = 3\<rparr>]\<rparr>
   \<and> manager_ok \<lparr>lists = (\<lambda>a. [])(0 := [\<lparr>order = 0, start_pos = 0, end_pos = 3\<rparr>]), next_addr = 1\<rparr>
      \<lparr>selections = [], shown = []\<rparr>
   \<and> ''find'' \<in> fst ` set [(''find'', 0::nat)]
   \<and> (let (h1, clone1) =
          link \<lparr>selections = [(''find'', 0)], shown = [\<lparr>order = 0, start_pos = 0, end_pos = 3\<rparr>]\<rparr>
            (\<lparr>lists = (\<lambda>a. [])(0 := [\<lparr>order = 0, start_pos = 0, end_pos = 3\<rparr>]), next_addr = 1\<rparr>,
             \<lparr>selections = [], shown = []\<rparr>)
       in get h1 clone1 ''find'' = [\<lparr>order = 0, start_pos = 0, end_pos = 3\<rparr>]
        \<and> get (fst (add ''find'' (One \<lparr>order = 1, start_pos = 5, end_pos = 8\<rparr>)
                  (h1, \<lparr>selections = [(''find'', 0)], shown = [\<lparr>order = 0, start_pos = 0, end_pos = 3\<rparr>]\<rparr>)))
             clone1 ''find'' = get h1 clone1 ''find''
        \<and> get (fst (remove ''find''
                  (h1, \<lparr>selections = [(''find'', 0)], shown = [\<lparr>order = 0, start_pos = 0, end_pos = 3\<rparr>]\<rparr>)))
             clone1 ''find'' = [])"
proof -
  let ?s = "\<lparr>order = 0, start_pos = 0, end_pos = 3\<rparr>"
  let ?h = "\<lparr>lists = (\<lambda>a. [])(0 := [?s]), next_addr = 1\<rparr>"
  let ?o = "\<lparr>selections = [(''find'', 0)], shown = [?s]\<rparr>"
  let ?c = "\<lparr>selections = [], shown = []\<rparr>"
  have 1: "manager_ok ?h ?o" by (simp add: manager_ok_def)
  have 2: "manager_ok ?h ?c" by (simp add: manager_ok_def)
  have 3: "''find'' \<in> fst ` set (selections ?o)" by simp
  have g: "get ?h ?o ''find'' = [?s]" by (simp add: get_def)
  show ?thesis
    using link_shares_lists[OF 1 2 3, of "One \<lparr>order = 1, start_pos = 5, end_pos = 8\<rparr>" "''find''"] 1 2 g
    by (simp add: Let_def split: prod.splits)
qed

theorem add_replaces_category_witness:
  "manager_ok \<lparr>lists = (\<lambda>a. [])(0 := [\<lparr>order = 2, start_pos = 10, end_pos = 12\<rparr>]), next_addr = 1\<rparr>
      \<lparr>selections = [(''checker'', 0)], shown = [\<lparr>order = 2, start_pos = 10, end_pos = 12\<rparr>]\<rparr>
   \<and> (let (h1, m1) = add ''find'' (One \<lparr>order = 0, start_pos = 0, end_pos = 3\<rparr>)
          (\<lparr>lists = (\<lambda>a. [])(0 := [\<lparr>order = 2, start_pos = 10, end_pos = 12\<rparr>]), next_addr = 1\<rparr>,
           \<lparr>selections = [(''checker'', 0)], shown = [\<lparr>order = 2, start_pos = 10, end_pos = 12\<rparr>]\<rparr>);
           (h2, m2) = add ''find'' (One \<lparr>order = 1, start_pos = 5, end_pos = 8\<rparr>) (h1, m1)
       in get h1 m1 ''find'' = [\<lparr>order = 0, start_pos = 0, end_pos = 3\<rparr>]
        \<and> get h2 m2 ''find'' = [\<lparr>order = 1, start_pos = 5, end_pos = 8\<rparr>]
        \<and> get h2 m2 ''checker'' = get h1 m1 ''checker''
        \<and> sorted (map order (shown m2)))"
proof -
  let ?c = "\<lparr>order = 2, start_pos = 10, end_pos = 12\<rparr>"
  let ?h = "\<lparr>lists = (\<lambda>a. [])(0 := [?c]), next_addr = 1\<rparr>"
  let ?m = "\<lparr>selections = [(''checker'', 0)], shown = [?c]\<rparr>"
  have 1: "manager_ok ?h ?m" by (simp add: manager_ok_def)
  have 2: "arg_ok ?h (One \<lparr>order = 0, start_pos = 0, end_pos = 3\<rparr>)" by (simp add: arg_ok_def)
  have 3: "''find'' \<noteq> ''checker''" by simp
  show ?thesis
    using add_replaces_category[OF 1 2 3, of "One \<lparr>order = 1, start_pos = 5, end_pos = 8\<rparr>"] 1
    by (simp add: Let_def arg_list_def split: prod.splits)
qed

subsection \<open>The scan of finditer\<close>

lemma finditer_from_sound:
  "(a, b) \<in> set (finditer_from p s i) \<Longrightarrow> i \<le> a \<and> a \<le> length s \<and> match_at p s a = Some b"
proof (induction p s i rule: finditer_from.induct)
  case (1 p s i)
  show ?case
  proof (cases "length s < i")
    case True
    then show ?thesis using "1.prems" by (simp add: finditer_from.simps)
  next
    case False
    show ?thesis
    proof (cases "match_at p s i")
      case None
      then have "(a, b) \<in> set (finditer_from p s (Suc i))"
        using "1.prems" False by (simp add: finditer_from.simps[of p s i])
      then show ?thesis using "1.IH"(1)[OF False None] by simp
    next
      case (Some e)
      then have "(a, b) = (i, e) \<or> (a, b) \<in> set (finditer_from p s (max e (Suc i)))"
        using "1.prems" False by (simp add: finditer_from.simps[of p s i])
      then show ?thesis
      proof
        assume "(a, b) = (i, e)"
        then show ?thesis using Some False by simp
      next
        assume "(a, b) \<in> set (finditer_from p s (max e (Suc i)))"
        then show ?thesis using "1.IH"(2)[OF False Some] by simp
      qed
    qed
  qed
qed

lemma finditer_from_sorted:
  "sorted_wrt (\<lambda>a b. snd a \<le> fst b \<and> fst a < fst b) (finditer_from p s i)"
proof (induction p s i rule: finditer_from.induct)
  case (1 p s i)
  show ?case
  proof (cases "length s < i")
    case True
    then show ?thesis by (simp add: finditer_from.simps)
  next
    case False
    show ?thesis
    proof (cases "match_at p s i")
      case None
      then show ?thesis
        using "1.IH"(1)[OF False None] False by (simp add: finditer_from.simps[of p s i])
    next
      case (Some e)
      have unf: "finditer_from p s i = (i, e) # finditer_from p s (max e (Suc i))"
        using False Some by (simp add: finditer_from.simps[of p s i])
      have later: "\<And>x. x \<in> set (finditer_from p s (max e (Suc i))) \<Longrightarrow> e \<le> fst x \<and> i < fst x"
      proof -
        fix x assume "x \<in> set (finditer_from p s (max e (Suc i)))"
        then have "(fst x, snd x) \<in> set (finditer_from p s (max e (Suc i)))" by simp
        then have "max e (Suc i) \<le> fst x" by (rule finditer_from_sound[THEN conjunct1])
        then show "e \<le> fst x \<and> i < fst x" by simp
      qed
      show ?thesis
        unfolding unf using "1.IH"(2)[OF False Some] later by simp
    qed
  qed
qed

lemma finditer_from_complete:
  "i \<le> j \<Longrightarrow> j \<le> length s \<Longrightarrow> match_at p s j = Some e' \<Longrightarrow>
     \<exists>x \<in> set (finditer_from p s i). fst x \<le> j \<and> (j = fst x \<or> j < snd x)"
proof (induction p s i rule: finditer_from.induct)
  case (1 p s i)
  have nl: "\<not> length s < i" using "1.prems" by simp
  show ?case
  proof (cases "match_at p s i")
    case None
    then have "i \<noteq> j" using "1.prems"(3) by auto
    then have "Suc i \<le> j" using "1.prems"(1) by simp
    then show ?thesis
      using "1.IH"(1)[OF nl None _ "1.prems"(2,3)] nl None
      by (simp add: finditer_from.simps[of p s i])
  next
    case (Some e)
    have unf: "finditer_from p s i = (i, e) # finditer_from p s (max e (Suc i))"
      using nl Some by (simp add: finditer_from.simps[of p s i])
    show ?thesis
    proof (cases "j = i \<or> j < e")
      case True
      then show ?thesis using unf "1.prems"(1) by auto
    next
      case False
      then have "max e (Suc i) \<le> j" using "1.prems"(1) by simp
      then show ?thesis
        using "1.IH"(2)[OF nl Some _ "1.prems"(2,3)] unf by simp
    qed
  qed
qed

lemma finditer_from_no_match:
  "(\<And>j. i \<le> j \<Longrightarrow> j \<le> length s \<Longrightarrow> match_at p s j = None) \<Longrightarrow> finditer_from p s i = []"
proof (induction p s i rule: finditer_from.induct)
  case (1 p s i)
  show ?case
  proof (cases "length s < i")
    case True
    then show ?thesis by (simp add: finditer_from.simps)
  next
    case False
    then have n: "match_at p s i = None" using "1.prems"[of i] by simp
    have "finditer_from p s (Suc i) = []"
      using "1.IH"(1)[OF False n] "1.prems" by simp
    then show ?thesis using False n by (simp add: finditer_from.simps[of p s i])
  qed
qed

subsection \<open>Literal patterns\<close>

lemma occurs_at_Nil: "occurs_at [] s i = (i \<le> length s)"
  by (simp add: occurs_at_def)

lemma occurs_at_Cons:
  "occurs_at (c # q) s i = (i < length s \<and> s ! i = c \<and> occurs_at q s (Suc i))"
proof (cases "i < length s")
  case True
  then have "drop i s = s ! i # drop (Suc i) s" by (simp add: Cons_nth_drop_Suc)
  then show ?thesis using True by (auto simp: occurs_at_def)
next
  case False
  then show ?thesis by (simp add: occurs_at_def)
qed

lemma match_at_literal_append:
  "i \<le> length s \<Longrightarrow>
     match_at (map Lit q @ p) s i = (if occurs_at q s i then match_at p s (i + length q) else None)"
proof (induction q arbitrary: i)
  case Nil
  then show ?case by (simp add: occurs_at_Nil)
next
  case (Cons c q)
  show ?case
  proof (cases "i < length s \<and> s ! i = c")
    case True
    then have "Suc i \<le> length s" by simp
    then show ?thesis using Cons.IH[of "Suc i"] True by (simp add: occurs_at_Cons)
  next
    case False
    then show ?thesis by (auto simp: occurs_at_Cons)
  qed
qed

lemma match_at_literal:
  "i \<le> length s \<Longrightarrow>
     match_at (map Lit q) s i = (if occurs_at q s i then Some (i + length q) else None)"
  using match_at_literal_append[of i s q "[]"] by simp

subsection \<open>The patterns of an escaped query\<close>

lemma re_compile_plain:
  "c \<noteq> backslash \<Longrightarrow> \<not> is_meta c \<Longrightarrow>
     re_compile (c # r) = map_option ((#) (Lit c)) (re_compile r)"
  by (cases r) simp_all

lemma re_compile_escaped:
  "\<not> is_alnum d \<Longrightarrow> re_compile (backslash # d # r) = map_option ((#) (Lit d)) (re_compile r)"
  by (auto simp: is_alnum_def)

lemma special_not_alnum: "c \<in> set special_chars \<Longrightarrow> \<not> is_alnum c"
  by (auto simp: special_chars_def is_alnum_def backslash_def)

lemma not_special_plain:
  "c \<notin> set special_chars \<Longrightarrow> c \<noteq> backslash \<and> \<not> is_meta c"
  by (auto simp: special_chars_def is_meta_def)

lemma re_compile_escape_append:
  "re_compile (re_escape q @ r) = map_option ((@) (map Lit q)) (re_compile r)"
proof (induction q)
  case Nil
  then show ?case by (simp add: option.map_ident)
next
  case (Cons c q)
  show ?case
  proof (cases "c \<in> set special_chars")
    case True
    then show ?thesis
      using Cons re_compile_escaped[OF special_not_alnum[OF True]]
      by (simp add: option.map_comp comp_def)
  next
    case False
    then show ?thesis
      using Cons not_special_plain[OF False] re_compile_plain
      by (simp add: option.map_comp comp_def)
  qed
qed

lemma re_compile_escape: "re_compile (re_escape q) = Some (map Lit q)"
  using re_compile_escape_append[of q "[]"] by simp

lemma word_not_special: "is_word c \<Longrightarrow> c \<notin> set special_chars"
  by (auto simp: is_word_def is_alnum_def special_chars_def backslash_def)

lemma re_escape_words: "\<forall>c \<in> set q. is_word c \<Longrightarrow> re_escape q = q"
  by (induction q) (simp_all add: word_not_special)

lemma re_compile_whole_word:
  "re_compile ([backslash, CHR ''b''] @ re_escape q @ [backslash, CHR ''b''])
     = Some (WordBoundary # map Lit q @ [WordBoundary])"
proof -
  have "re_compile [backslash, CHR ''b''] = Some [WordBoundary]" by simp
  then have "re_compile (re_escape q @ [backslash, CHR ''b'']) = Some (map Lit q @ [WordBoundary])"
    by (simp add: re_compile_escape_append)
  then show ?thesis by simp
qed

subsection \<open>What find returns\<close>

lemma finditer_spans_of:
  assumes m: "\<And>j. j \<le> length s \<Longrightarrow> match_at p s j = (if occ j then Some (j + n) else None)"
    and le: "\<And>j. occ j \<Longrightarrow> j \<le> length s"
  shows "spans_of n occ (finditer p s)"
proof -
  have a: "\<forall>x \<in> set (finditer p s). snd x = fst x + n \<and> occ (fst x)"
  proof
    fix x assume "x \<in> set (finditer p s)"
    then have "(fst x, snd x) \<in> set (finditer_from p s 0)" by (simp add: finditer_def)
    then have "fst x \<le> length s \<and> match_at p s (fst x) = Some (snd x)"
      using finditer_from_sound by blast
    then show "snd x = fst x + n \<and> occ (fst x)"
      using m[of "fst x"] by (auto split: if_splits)
  qed
  have b: "sorted_wrt (\<lambda>a b. snd a \<le> fst b \<and> fst a < fst b) (finditer p s)"
    unfolding finditer_def by (rule finditer_from_sorted)
  have c: "\<forall>i. occ i \<longrightarrow> (\<exists>x \<in> set (finditer p s). fst x \<le> i \<and> (i = fst x \<or> i < snd x))"
  proof (intro allI impI)
    fix i assume o: "occ i"
    then have "i \<le> length s" by (rule le)
    moreover from this have "match_at p s i = Some (i + n)" using m[of i] o by simp
    ultimately show "\<exists>x \<in> set (finditer p s). fst x \<le> i \<and> (i = fst x \<or> i < snd x)"
      unfolding finditer_def using finditer_from_complete[of 0 i s p] by simp
  qed
  from a b c show ?thesis by (simp add: spans_of_def)
qed

lemma occurs_at_le: "occurs_at q s i \<Longrightarrow> i \<le> length s"
  by (simp add: occurs_at_def)

lemma occurs_at_nth:
  assumes "occurs_at q s i" and "j < length q"
  shows "i + j < length s \<and> s ! (i + j) = q ! j"
proof -
  have eq: "take (length q) (drop i s) = q" and le: "i + length q \<le> length s"
    using assms(1) by (simp_all add: occurs_at_def)
  have "take (length q) (drop i s) ! j = s ! (i + j)"
    using assms(2) le by simp
  then have "q ! j = s ! (i + j)" by (simp only: eq)
  then show ?thesis using assms(2) le by simp
qed

lemma boundaries_of_word:
  assumes o: "occurs_at q s i" and ne: "q \<noteq> []" and w: "\<forall>c \<in> set q. is_word c"
  shows "at_boundary s i = (\<not> (0 < i \<and> word_at s (i - 1)))"
    and "at_boundary s (i + length q) = (\<not> word_at s (i + length q))"
proof -
  have "0 < length q" using ne by simp
  then have f: "i + 0 < length s \<and> s ! (i + 0) = q ! 0" by (rule occurs_at_nth[OF o])
  have "q ! 0 \<in> set q" using ne by simp
  then have "word_at s i" using f w by (simp add: word_at_def)
  then show "at_boundary s i = (\<not> (0 < i \<and> word_at s (i - 1)))"
    by (simp add: at_boundary_def)
  have l: "length q - 1 < length q" using ne by simp
  have g: "i + (length q - 1) < length s \<and> s ! (i + (length q - 1)) = q ! (length q - 1)"
    by (rule occurs_at_nth[OF o l])
  have "q ! (length q - 1) \<in> set q" using l by simp
  then have "word_at s (i + (length q - 1))" using g w by (simp add: word_at_def)
  moreover have "i + length q - 1 = i + (length q - 1)" using ne by (cases q) simp_all
  ultimately show "at_boundary s (i + length q) = (\<not> word_at s (i + length q))"
    using ne by (simp add: at_boundary_def)
qed

lemma match_at_whole_word:
  assumes "i \<le> length s" and "q \<noteq> []" and "\<forall>c \<in> set q. is_word c"
  shows "match_at (WordBoundary # map Lit q @ [WordBoundary]) s i
           = (if whole_word_at q s i then Some (i + length q) else None)"
proof (cases "occurs_at q s i")
  case True
  show ?thesis
    using match_at_literal_append[OF assms(1), of q "[WordBoundary]"] True
      boundaries_of_word[OF True assms(2,3)]
    by (simp add: whole_word_at_def)
next
  case False
  then show ?thesis
    using match_at_literal_append[OF assms(1), of q "[WordBoundary]"]
    by (simp add: whole_word_at_def)
qed

lemma find_results_literal:
  "snd (get_find_index_results text pos q True False) = finditer (map Lit q) text"
  by (simp add: get_find_index_results_def find_all_iter_def re_compile_escape Let_def)

lemma find_results_whole_word:
  "\<forall>c \<in> set q. is_word c \<Longrightarrow>
     snd (get_find_index_results text pos q True True)
       = finditer (WordBoundary # map Lit q @ [WordBoundary]) text"
  using re_compile_whole_word[of q]
  by (simp add: get_find_index_results_def find_all_iter_def re_escape_words Let_def)

text \<open>
  Claim C1, amended. Case sensitive and with whole words off, find returns the spans of
  the occurrences of the query that a scan from left to right meets, each search going on
  at the end of the match before: every span returned is an occurrence of the query, the
  spans are in order and do not overlap, and every occurrence of the query is one of them
  or starts inside one of them. With whole words on and a query of word characters only
  (letters, digits, underscore), the same holds of the occurrences that have no word
  character just before and none just after.
\<close>

theorem find_case_sensitive:
  "spans_of (length q) (occurs_at q text) (snd (get_find_index_results text pos q True False))
   \<and> (q \<noteq> [] \<and> (\<forall>c \<in> set q. is_word c) \<longrightarrow>
        spans_of (length q) (whole_word_at q text)
          (snd (get_find_index_results text pos q True True)))"
proof
  show "spans_of (length q) (occurs_at q text) (snd (get_find_index_results text pos q True False))"
    unfolding find_results_literal
    by (rule finditer_spans_of) (simp_all add: match_at_literal occurs_at_le)
next
  show "q \<noteq> [] \<and> (\<forall>c \<in> set q. is_word c) \<longrightarrow>
        spans_of (length q) (whole_word_at q text)
          (snd (get_find_index_results text pos q True True))"
  proof
    assume h: "q \<noteq> [] \<and> (\<forall>c \<in> set q. is_word c)"
    then have w: "\<forall>c \<in> set q. is_word c" and ne: "q \<noteq> []" by simp_all
    show "spans_of (length q) (whole_word_at q text)
          (snd (get_find_index_results text pos q True True))"
      unfolding find_results_whole_word[OF w]
    proof (rule finditer_spans_of)
      fix j assume "j \<le> length text"
      then show "match_at (WordBoundary # map Lit q @ [WordBoundary]) text j
                   = (if whole_word_at q text j then Some (j + length q) else None)"
        using ne w by (rule match_at_whole_word)
    next
      fix j assume "whole_word_at q text j"
      then have "occurs_at q text j" by (simp add: whole_word_at_def)
      then show "j \<le> length text" by (rule occurs_at_le)
    qed
  qed
qed

subsection \<open>The empty query\<close>

lemma finditer_from_empty_pattern:
  "finditer_from [] s i = map (\<lambda>j. (j, j)) [i ..< Suc (length s)]"
proof (induction "[] :: atom list" s i rule: finditer_from.induct)
  case (1 s i)
  show ?case
  proof (cases "length s < i")
    case True
    then show ?thesis by (simp add: finditer_from.simps)
  next
    case False
    then have u: "[i ..< Suc (length s)] = i # [Suc i ..< Suc (length s)]"
      by (simp add: upt_conv_Cons)
    have "finditer_from [] s i = (i, i) # finditer_from [] s (Suc i)"
      using False by (simp add: finditer_from.simps[of "[]" s i])
    then show ?thesis
      using "1.hyps"(2)[OF False, of i] u by simp
  qed
qed

lemma length_lower: "length (lower s) = length s"
  by (simp add: lower_def)

lemma get_after_remove: "get (fst (remove kind hm)) (snd (remove kind hm)) kind = []"
proof (cases hm)
  case (Pair h m)
  show ?thesis
    by (cases "map_of (selections m) kind")
       (simp_all add: Pair remove_def get_def update_def Let_def)
qed

text \<open>
  Claim C5, amended. With an empty query and whole words off, find returns an empty
  match at every offset of the text, from 0 to its length, and the number of these up to
  the cursor as the current index. It is \<open>highlight_selected_word\<close> that, with an empty
  word under the cursor, returns before it searches, with no occurrence stored.
\<close>

theorem find_empty_query:
  "get_find_index_results text pos [] cs False
     = (Suc (min pos (length text)), map (\<lambda>i. (i, i)) [0 ..< Suc (length text)])
   \<and> get (fst (highlight_selected_word text pos [] ord hm))
         (snd (highlight_selected_word text pos [] ord hm)) ''occurrences'' = []"
proof -
  have a: "get_find_index_results text pos [] cs False
     = (Suc (min pos (length text)), map (\<lambda>i. (i, i)) [0 ..< Suc (length text)])"
    by (simp add: get_find_index_results_def find_all_iter_def finditer_def lower_def
        finditer_from_empty_pattern Let_def min.commute del: upt_Suc)
  have "highlight_selected_word text pos [] ord hm = remove ''occurrences'' hm"
    by (simp add: highlight_selected_word_def Let_def)
  then have b: "get (fst (highlight_selected_word text pos [] ord hm))
         (snd (highlight_selected_word text pos [] ord hm)) ''occurrences'' = []"
    by (simp only: get_after_remove)
  from a b show ?thesis by (rule conjI)
qed

text \<open>
  Claim C5 as stated fails: in the text \<open>''ab''\<close> the empty query has three matches,
  and with the cursor at offset 0 the current index is 1.
\<close>

theorem find_empty_query_counterexample:
  "get_find_index_results ''ab'' 0 [] True False = (1, [(0, 0), (1, 1), (2, 2)])"
  by (simp add: get_find_index_results_def find_all_iter_def finditer_def
      finditer_from.simps Let_def)

theorem find_empty_query_witness:
  "get_find_index_results ''Ab c'' 2 [] False False
     = (3, [(0, 0), (1, 1), (2, 2), (3, 3), (4, 4)])"
  using find_empty_query [of "''Ab c''" 2 False 0 "(\<lparr>lists = \<lambda>a. [], next_addr = 0\<rparr>, \<lparr>selections = [], shown = []\<rparr>)"]
  by (simp add: upt_rec)

subsection \<open>The index of the current match\<close>

lemma occurs_at_take:
  "occurs_at q (take k s) j = (occurs_at q s j \<and> j + length q \<le> k)"
proof (cases "j + length q \<le> k")
  case True
  then have "take (length q) (drop j (take k s)) = take (length q) (drop j s)"
    by (simp add: drop_take min_def)
  then show ?thesis using True by (auto simp: occurs_at_def)
next
  case False
  then show ?thesis by (auto simp: occurs_at_def)
qed

lemma finditer_from_past_end: "length s < i \<Longrightarrow> finditer_from p s i = []"
  by (simp add: finditer_from.simps)

lemma finditer_from_Some:
  "i \<le> length s \<Longrightarrow> match_at p s i = Some e \<Longrightarrow>
     finditer_from p s i = (i, e) # finditer_from p s (max e (Suc i))"
  by (simp add: finditer_from.simps[of p s i])

lemma finditer_from_None:
  "i \<le> length s \<Longrightarrow> match_at p s i = None \<Longrightarrow>
     finditer_from p s i = finditer_from p s (Suc i)"
  by (simp add: finditer_from.simps[of p s i])

lemma finditer_from_prefix:
  assumes "\<And>j. j \<le> length s \<Longrightarrow> match_at p s j = (if occ j then Some (j + n) else None)"
    and "\<And>j. j \<le> length (take k s) \<Longrightarrow>
           match_at p (take k s) j = (if occ j \<and> j + n \<le> k then Some (j + n) else None)"
  shows "finditer_from p (take k s) i = filter (\<lambda>x. snd x \<le> k) (finditer_from p s i)"
  using assms
proof (induction p s i rule: finditer_from.induct)
  case (1 p s i)
  note full = "1.prems"(1) and pre = "1.prems"(2)
  show ?case
  proof (cases "length s < i")
    case True
    then have "length (take k s) < i" by simp
    then show ?thesis using True by (simp add: finditer_from_past_end)
  next
    case False
    then have il: "i \<le> length s" by simp
    show ?thesis
    proof (cases "occ i")
      case no: False
      then have n: "match_at p s i = None" using full[OF il] by simp
      have ih: "finditer_from p (take k s) (Suc i)
                  = filter (\<lambda>x. snd x \<le> k) (finditer_from p s (Suc i))"
        using "1.IH"(1)[OF False n] full pre by blast
      have r: "finditer_from p s i = finditer_from p s (Suc i)"
        using False n by (simp add: finditer_from.simps[of p s i])
      have l: "finditer_from p (take k s) i = finditer_from p (take k s) (Suc i)"
      proof (cases "length (take k s) < i")
        case True
        then show ?thesis by (simp add: finditer_from_past_end)
      next
        case False
        then have ik: "i \<le> length (take k s)" by (simp only: not_less)
        have "match_at p (take k s) i = None" using pre[OF ik] no by simp
        with ik show ?thesis by (rule finditer_from_None)
      qed
      show ?thesis using ih r l by simp
    next
      case yes: True
      then have m: "match_at p s i = Some (i + n)" using full[OF il] by simp
      have r: "finditer_from p s i = (i, i + n) # finditer_from p s (max (i + n) (Suc i))"
        using False m by (simp add: finditer_from.simps[of p s i])
      show ?thesis
      proof (cases "i + n \<le> k")
        case True
        then have ik: "i \<le> length (take k s)" using il by simp
        have "match_at p (take k s) i = Some (i + n)" using pre[OF ik] yes True by simp
        with ik have l: "finditer_from p (take k s) i
                        = (i, i + n) # finditer_from p (take k s) (max (i + n) (Suc i))"
          by (rule finditer_from_Some)
        have ih: "finditer_from p (take k s) (max (i + n) (Suc i))
                    = filter (\<lambda>x. snd x \<le> k) (finditer_from p s (max (i + n) (Suc i)))"
          using "1.IH"(2)[OF False m] full pre by blast
        show ?thesis using l r ih True by simp
      next
        case far: False
        have "\<And>j. i \<le> j \<Longrightarrow> j \<le> length (take k s) \<Longrightarrow> match_at p (take k s) j = None"
          using pre far by simp
        then have l: "finditer_from p (take k s) i = []"
          by (rule finditer_from_no_match)
        have "\<And>x. x \<in> set (finditer_from p s (max (i + n) (Suc i))) \<Longrightarrow> \<not> snd x \<le> k"
        proof -
          fix x assume "x \<in> set (finditer_from p s (max (i + n) (Suc i)))"
          then have "(fst x, snd x) \<in> set (finditer_from p s (max (i + n) (Suc i)))" by simp
          then have s: "max (i + n) (Suc i) \<le> fst x \<and> fst x \<le> length s
                          \<and> match_at p s (fst x) = Some (snd x)"
            by (rule finditer_from_sound)
          then have "snd x = fst x + n" using full[of "fst x"] by (auto split: if_splits)
          then show "\<not> snd x \<le> k" using s far by simp
        qed
        then have "filter (\<lambda>x. snd x \<le> k) (finditer_from p s (max (i + n) (Suc i))) = []"
          by (simp add: filter_empty_conv)
        then show ?thesis using l r far by simp
      qed
    qed
  qed
qed

lemma finditer_literal_prefix:
  "finditer (map Lit q) (take k s) = filter (\<lambda>x. snd x \<le> k) (finditer (map Lit q) s)"
  unfolding finditer_def
  by (rule finditer_from_prefix[where occ = "occurs_at q s" and n = "length q"])
     (simp_all add: match_at_literal occurs_at_take)

text \<open>
  Claim C7, amended. With whole words off, the current index that find returns is the
  number of the matches it returns that end at or before the cursor offset: the matches
  of the text cut at the cursor.
\<close>

theorem current_index_counts_ended:
  "fst (get_find_index_results text pos q cs False)
     = length (filter (\<lambda>(s, e). e \<le> pos) (snd (get_find_index_results text pos q cs False)))"
proof -
  have "(\<lambda>(s, e). e \<le> pos) = (\<lambda>x :: nat \<times> nat. snd x \<le> pos)" by auto
  then show ?thesis
    by (simp add: get_find_index_results_def find_all_iter_def re_compile_escape
        finditer_literal_prefix Let_def)
qed

text \<open>
  Claim C7 as stated fails: in \<open>''hello''\<close> with the cursor at offset 3, the one match
  of \<open>''hello''\<close> starts before the cursor, and the current index is 0.
\<close>

theorem current_index_counterexample:
  "get_find_index_results ''hello'' 3 ''hello'' True False = (0, [(0, 5)])
   \<and> length (filter (\<lambda>(s, e). s < 3) [(0 :: nat, 5 :: nat)]) = 1"
  by (simp add: get_find_index_results_def find_all_iter_def finditer_def
      finditer_from.simps special_chars_def backslash_def is_meta_def Let_def)

theorem current_index_counts_ended_witness:
  "snd (get_find_index_results ''ab Ab ab'' 5 ''AB'' False False) = [(0, 2), (3, 5), (6, 8)]
   \<and> fst (get_find_index_results ''ab Ab ab'' 5 ''AB'' False False) = 2
   \<and> fst (get_find_index_results ''ab Ab ab'' 4 ''AB'' False False) = 1"
proof -
  have r: "\<And>pos. snd (get_find_index_results ''ab Ab ab'' pos ''AB'' False False)
             = [(0, 2), (3, 5), (6, 8)]"
    by (simp add: get_find_index_results_def find_all_iter_def finditer_def
        finditer_from.simps special_chars_def backslash_def is_meta_def lower_def lower_char_def
        Let_def)
  show ?thesis
    using current_index_counts_ended [of "''ab Ab ab''" 5 "''AB''" False]
      current_index_counts_ended [of "''ab Ab ab''" 4 "''AB''" False]
    by (simp add: r)
qed

subsection \<open>Examples of find\<close>

text \<open>
  Claim C1 as stated fails: \<open>''aa''\<close> occurs in \<open>''aaa''\<close> at offsets 0 and 1 and
  find returns the first span only; \<open>''a.b''\<close> occurs in \<open>''a.b''\<close> between word
  boundaries and find, with whole words on, returns nothing, the query being escaped
  twice.
\<close>

theorem find_case_sensitive_counterexample:
  "snd (get_find_index_results ''aaa'' 0 ''aa'' True False) = [(0, 2)]
   \<and> occurs_at ''aa'' ''aaa'' 1
   \<and> snd (get_find_index_results ''a.b'' 0 ''a.b'' True True) = []
   \<and> whole_word_at ''a.b'' ''a.b'' 0"
  by (simp add: get_find_index_results_def find_all_iter_def finditer_def
      finditer_from.simps special_chars_def backslash_def is_meta_def is_alnum_def
      at_boundary_def word_at_def is_word_def occurs_at_def whole_word_at_def Let_def)

theorem find_case_sensitive_witness:
  "snd (get_find_index_results ''category cat'' 0 ''cat'' True False) = [(0, 3), (9, 12)]
   \<and> spans_of (length ''cat'') (occurs_at ''cat'' ''category cat'') [(0, 3), (9, 12)]
   \<and> snd (get_find_index_results ''category cat'' 0 ''cat'' True True) = [(9, 12)]
   \<and> spans_of (length ''cat'') (whole_word_at ''cat'' ''category cat'') [(9, 12)]"
proof -
  note ev = get_find_index_results_def find_all_iter_def finditer_def
      finditer_from.simps special_chars_def backslash_def is_meta_def is_alnum_def
      at_boundary_def word_at_def is_word_def Let_def
  have a: "snd (get_find_index_results ''category cat'' 0 ''cat'' True False) = [(0, 3), (9, 12)]"
    by (simp add: ev)
  have b: "snd (get_find_index_results ''category cat'' 0 ''cat'' True True) = [(9, 12)]"
    by (simp add: ev)
  have w: "''cat'' \<noteq> [] \<and> (\<forall>c \<in> set ''cat''. is_word c)"
    by (simp add: is_word_def is_alnum_def)
  show ?thesis
    using find_case_sensitive [of "''cat''" "''category cat''" 0] w
    by (simp add: a b)
qed

text \<open>
  The example of the specification: \<open>''cat''\<close> in \<open>''category''\<close> has no match as a
  whole word and one match otherwise.
\<close>

lemma find_category:
  "snd (get_find_index_results ''category'' 0 ''cat'' True True) = []
   \<and> snd (get_find_index_results ''category'' 0 ''cat'' True False) = [(0, 3)]"
  by (simp add: get_find_index_results_def find_all_iter_def finditer_def
      finditer_from.simps special_chars_def backslash_def is_meta_def is_alnum_def
      at_boundary_def word_at_def is_word_def Let_def)

end
